theory Spec2Isabelle
  imports Complex_Main "HOL-Library.Multiset"
begin

text \<open>
  A shallow embedding of the MusicToy synthesis engine: the ADSR envelope and the analog
  voice node (vananlog.ts), the note-name parser (music.ts), the event timeline with its
  render handler (piece.ts) and the port graph with its scheduler (synth.ts).

  JavaScript numbers are modelled as mathematical reals: rounding, NaN and the
  infinities of IEEE doubles are outside the model.  Array indices and counters are
  integers.  A thrown exception is a value of type \<open>error\<close>.
\<close>

datatype error = Thrown string | TypeError

section \<open>Events and tracks (piece.ts)\<close>

text \<open>
  A \<open>Note\<close> object is pooled by \<open>Note.getNote\<close> (one object per note number), so the
  identity test \<open>===\<close> on notes is equality of the note number.
\<close>

datatype Note = Note (noteNo: int)

datatype SynthEvt =
    NoteOnEvt (evt_time: real) (evt_note: Note) (evt_vel: real)
  | NoteOffEvt (evt_time: real) (evt_note: Note)
  | AllNotesOffEvt (evt_time: real)

text \<open>A track: its event array and the target node (\<open>undefined\<close> is \<open>None\<close>).\<close>

record 'n Track =
  events :: "SynthEvt list"
  target :: "'n option"

definition Track_new :: "'n option \<Rightarrow> 'n Track" where
  "Track_new tgt = \<lparr>events = [], target = tgt\<rparr>"

text \<open>
  \<open>Track.addEvent\<close>: push the event, return early when it is the only event or when
  its time is at or after the time of the event before it, otherwise sort the array with
  the comparator \<open>a.time - b.time\<close> (a stable ascending sort by time).
  \<open>addEvent_sorts\<close> is the negation of the early-return test, on the array after the push.
\<close>

definition addEvent_sorts :: "SynthEvt list \<Rightarrow> SynthEvt \<Rightarrow> bool" where
  "addEvent_sorts evs evt =
     (\<not> (length evs = 1 \<or> evt_time evt \<ge> evt_time (evs ! (length evs - 2))))"

definition addEvent :: "'n Track \<Rightarrow> SynthEvt \<Rightarrow> 'n Track" where
  "addEvent tr evt =
     (let evs = events tr @ [evt] in
      if addEvent_sorts evs evt then tr\<lparr>events := sort_key evt_time evs\<rparr>
      else tr\<lparr>events := evs\<rparr>)"

definition clear :: "'n Track \<Rightarrow> 'n Track" where
  "clear tr = tr\<lparr>events := []\<rparr>"

definition events_sorted :: "'n Track \<Rightarrow> bool" where
  "events_sorted tr = sorted (map evt_time (events tr))"

subsection \<open>Track.dispatch\<close>

text \<open>
  The binary search of \<open>Track.dispatch\<close>, on integer indices (\<open>maxIdx\<close> can reach -1).
  The result is the triple \<open>(minIdx, maxIdx, midIdx)\<close> at the exit of the loop; the
  \<open>break\<close> leaves \<open>minIdx \<le> maxIdx\<close>.  \<open>leftTime\<close> is \<open>-Infinity\<close> at index 0, which is
  below every time.
\<close>

function dispatch_search :: "SynthEvt list \<Rightarrow> real \<Rightarrow> int \<Rightarrow> int \<Rightarrow> int \<Rightarrow> int \<times> int \<times> int" where
  "dispatch_search evs prevTime minIdx maxIdx midIdx =
     (if minIdx \<le> maxIdx then
        (let mid = (minIdx + maxIdx) div 2;
             midTime = evt_time (evs ! nat mid);
             leftBelow = (if mid = 0 then True else evt_time (evs ! nat (mid - 1)) < prevTime)
         in if leftBelow \<and> midTime \<ge> prevTime then (minIdx, maxIdx, mid)
            else if midTime < prevTime then dispatch_search evs prevTime (mid + 1) maxIdx mid
            else dispatch_search evs prevTime minIdx (mid - 1) mid)
      else (minIdx, maxIdx, midIdx))"
  by pat_completeness auto
termination
  by (relation "measure (\<lambda>(evs, prevTime, minIdx, maxIdx, midIdx). nat (maxIdx - minIdx + 1))")
    auto

text \<open>
  The target node's \<open>processEvent(evt, time)\<close> is a parameter \<open>pe\<close>: it acts on a state
  \<open>'w\<close> that holds the nodes, and it may throw.  \<open>deliver\<close> is the final loop of
  \<open>Track.dispatch\<close> over the events from \<open>midIdx\<close> on; \<open>process_all\<close> is the plain
  sequence of calls \<open>processEvent(evt, realTime)\<close> for a list of events, in list order.
\<close>

fun deliver :: "('n \<Rightarrow> SynthEvt \<Rightarrow> real \<Rightarrow> 'w \<Rightarrow> error + 'w) \<Rightarrow> 'n \<Rightarrow> real \<Rightarrow> SynthEvt list
    \<Rightarrow> real \<Rightarrow> 'w \<Rightarrow> error + 'w" where
  "deliver pe tgt curTime [] realTime w = Inr w"
| "deliver pe tgt curTime (evt # rest) realTime w =
     (if evt_time evt \<ge> curTime then Inr w
      else (case pe tgt evt realTime w of
              Inl e \<Rightarrow> Inl e
            | Inr w' \<Rightarrow> deliver pe tgt curTime rest realTime w'))"

fun process_all :: "('n \<Rightarrow> SynthEvt \<Rightarrow> real \<Rightarrow> 'w \<Rightarrow> error + 'w) \<Rightarrow> 'n \<Rightarrow> real \<Rightarrow> SynthEvt list
    \<Rightarrow> 'w \<Rightarrow> error + 'w" where
  "process_all pe tgt realTime [] w = Inr w"
| "process_all pe tgt realTime (evt # rest) w =
     (case pe tgt evt realTime w of
        Inl e \<Rightarrow> Inl e
      | Inr w' \<Rightarrow> process_all pe tgt realTime rest w')"

definition Track_dispatch :: "('n \<Rightarrow> SynthEvt \<Rightarrow> real \<Rightarrow> 'w \<Rightarrow> error + 'w) \<Rightarrow> 'n Track
    \<Rightarrow> real \<Rightarrow> real \<Rightarrow> real \<Rightarrow> 'w \<Rightarrow> error + 'w" where
  "Track_dispatch pe tr prevTime curTime realTime w =
     (case target tr of
        None \<Rightarrow> Inr w
      | Some tgt \<Rightarrow>
          if length (events tr) = 0 then Inr w
          else
            (case dispatch_search (events tr) prevTime 0 (int (length (events tr)) - 1) 0 of
               (minIdx, maxIdx, midIdx) \<Rightarrow>
                 if minIdx > maxIdx then Inr w
                 else deliver pe tgt curTime (drop (nat midIdx) (events tr)) realTime w))"

text \<open>The events of a window \<open>[prevTime, curTime)\<close>, in the order of the array.\<close>

definition in_dispatch_window :: "real \<Rightarrow> real \<Rightarrow> SynthEvt \<Rightarrow> bool" where
  "in_dispatch_window prevTime curTime evt = (prevTime \<le> evt_time evt \<and> evt_time evt < curTime)"

definition window_events :: "'n Track \<Rightarrow> real \<Rightarrow> real \<Rightarrow> SynthEvt list" where
  "window_events tr prevTime curTime = filter (in_dispatch_window prevTime curTime) (events tr)"

text \<open>A target that records the calls it receives.\<close>

definition log_event :: "'n \<Rightarrow> SynthEvt \<Rightarrow> real \<Rightarrow> ('n \<times> SynthEvt \<times> real) list
    \<Rightarrow> error + ('n \<times> SynthEvt \<times> real) list" where
  "log_event tgt evt time calls = Inr (calls @ [(tgt, evt, time)])"

section \<open>Note names (music.ts)\<close>

definition NUM_NOTES :: int where "NUM_NOTES = 128"

definition NOTES_PER_OCTAVE :: int where "NOTES_PER_OCTAVE = 12"

text \<open>The table \<open>NOTE_NAME_PC\<close>; a name that is not a key reads as \<open>undefined\<close> (\<open>None\<close>).\<close>

definition NOTE_NAME_PC :: "string \<Rightarrow> int option" where
  "NOTE_NAME_PC = map_of
     [(''C'', 0), (''C#'', 1), (''D'', 2), (''D#'', 3), (''E'', 4), (''F'', 5),
      (''F#'', 6), (''G'', 7), (''G#'', 8), (''A'', 9), (''A#'', 10), (''B'', 11)]"

text \<open>
  The regular expression \<open>/([A-G]#?)([0-9])/i\<close>: case-insensitive and not anchored, so
  \<open>name.match\<close> returns the leftmost match.  At a position the expression matches a letter,
  an optional sharp and one digit.  \<open>match_note\<close> returns the two groups of the leftmost
  match, \<open>None\<close> when \<open>match\<close> returns \<open>null\<close>.
\<close>

definition isNoteLetter :: "char \<Rightarrow> bool" where
  "isNoteLetter c = (c \<in> set ''ABCDEFGabcdefg'')"

definition isDigit :: "char \<Rightarrow> bool" where
  "isDigit c = (c \<in> set ''0123456789'')"

fun match_note :: "string \<Rightarrow> (string \<times> char) option" where
  "match_note [] = None"
| "match_note (c # cs) =
     (if isNoteLetter c then
        (case cs of
           h # d # _ \<Rightarrow>
             if h = CHR ''#'' \<and> isDigit d then Some ([c, h], d)
             else if isDigit h then Some ([c], h)
             else match_note cs
         | [h] \<Rightarrow> if isDigit h then Some ([c], h) else match_note cs
         | [] \<Rightarrow> match_note cs)
      else match_note cs)"

text \<open>\<open>parseInt\<close> on the one-digit second group.\<close>

definition parseInt_digit :: "char \<Rightarrow> int" where
  "parseInt_digit c = int (of_char c) - 48"

text \<open>
  \<open>Note.nameToNo\<close>, with its three assertions in the source's order.  The last one is
  written with \<open>||\<close> in the source.
\<close>

definition nameToNo :: "string \<Rightarrow> error + int" where
  "nameToNo name =
     (case match_note name of
        None \<Rightarrow> Inl (Thrown (''invalid note name: \"'' @ name @ ''\"''))
      | Some (namePart, numPart) \<Rightarrow>
          (case NOTE_NAME_PC namePart of
             None \<Rightarrow> Inl (Thrown (''invalid note name: '' @ namePart))
           | Some pc \<Rightarrow>
               (let octNo = parseInt_digit numPart;
                    noteNo = (octNo + 1) * NOTES_PER_OCTAVE + pc
                in if noteNo \<ge> 0 \<or> noteNo < NUM_NOTES then Inr noteNo
                   else Inl (Thrown ''note parsing failed''))))"

text \<open>The range of MIDI note numbers that the class comment of \<open>Note\<close> documents.\<close>

definition midi_range :: "int \<Rightarrow> bool" where
  "midi_range n = (0 \<le> n \<and> n < NUM_NOTES)"

definition CENTS_PER_OCTAVE :: real where "CENTS_PER_OCTAVE = 1200"

definition A4_NOTE_FREQ :: real where "A4_NOTE_FREQ = 440"

definition A4_NOTE_NO :: int where "A4_NOTE_NO = 69"

section \<open>The ADSR envelope (vananlog.ts, class ADSREnv)\<close>

text \<open>
  Attack, decay and release times are numbers that may be \<open>Infinity\<close> (the filter and
  pitch envelopes of \<open>VAnalog\<close> are built with an infinite release).  For a finite
  \<open>x\<close>, \<open>x < Infinity\<close> holds and \<open>x / Infinity\<close> is 0.  The difference
  \<open>noteTime - this.a\<close> is only evaluated after \<open>noteTime < this.a\<close> failed, that is
  for a finite \<open>this.a\<close>.
\<close>

datatype dur = Finite real | Infinity

fun dur_less :: "real \<Rightarrow> dur \<Rightarrow> bool" where
  "dur_less x (Finite y) = (x < y)"
| "dur_less x Infinity = True"

fun dur_div :: "real \<Rightarrow> dur \<Rightarrow> real" where
  "dur_div x (Finite y) = x / y"
| "dur_div x Infinity = 0"

fun dur_add :: "dur \<Rightarrow> dur \<Rightarrow> dur" where
  "dur_add (Finite x) (Finite y) = Finite (x + y)"
| "dur_add _ _ = Infinity"

fun dur_minus :: "real \<Rightarrow> dur \<Rightarrow> real" where
  "dur_minus x (Finite y) = x - y"
| "dur_minus x Infinity = x"

record ADSREnv =
  env_a :: dur
  env_d :: dur
  env_s :: real
  env_r :: dur
  aExp :: real
  dExp :: real
  rExp :: real

definition ADSREnv_new :: "dur \<Rightarrow> dur \<Rightarrow> real \<Rightarrow> dur \<Rightarrow> ADSREnv" where
  "ADSREnv_new a d s r =
     \<lparr>env_a = a, env_d = d, env_s = s, env_r = r, aExp = 2, dExp = 2, rExp = 2\<rparr>"

text \<open>
  \<open>Math.pow\<close> on reals: the exact power for an exponent that is a non-negative integer
  (the constructor sets every exponent to 2), the real power otherwise.
\<close>

definition Math_pow :: "real \<Rightarrow> real \<Rightarrow> real" where
  "Math_pow x y = (if y = of_int \<lfloor>y\<rfloor> \<and> 0 \<le> y then x ^ nat \<lfloor>y\<rfloor> else x powr y)"

definition interp :: "real \<Rightarrow> real \<Rightarrow> real \<Rightarrow> real \<Rightarrow> real" where
  "interp x yL yR ex =
     (if yR > yL then yL + Math_pow x ex * (yR - yL)
      else yR + Math_pow (1 - x) ex * (yL - yR))"

definition getValue :: "ADSREnv \<Rightarrow> real \<Rightarrow> real \<Rightarrow> real \<Rightarrow> real \<Rightarrow> real \<Rightarrow> real" where
  "getValue env curTime onT offT onA offA =
     (if offT = 0 then
        (let noteTime = curTime - onT in
         if dur_less noteTime (env_a env) then
           interp (dur_div noteTime (env_a env)) onA 1 (aExp env)
         else if dur_less noteTime (dur_add (env_a env) (env_d env)) then
           interp (dur_div (dur_minus noteTime (env_a env)) (env_d env)) 1 (env_s env) (dExp env)
         else env_s env)
      else
        (let relTime = curTime - offT in
         if dur_less relTime (env_r env) then
           interp (dur_div relTime (env_r env)) offA 0 (rExp env)
         else 0))"

subsection \<open>The reference definition of the specification\<close>

text \<open>
  The interpolation rule and the piecewise envelope as the specification words them:
  progress \<open>x\<close>, exponent \<open>e\<close>, from \<open>startv\<close> to \<open>targetv\<close>; the attack window
  \<open>[0, a)\<close>, the decay window \<open>[a, a + d)\<close> and the release window \<open>[0, r)\<close>, each with
  its lower bound.
\<close>

definition interp_spec :: "real \<Rightarrow> real \<Rightarrow> real \<Rightarrow> real \<Rightarrow> real" where
  "interp_spec x e startv targetv =
     (if targetv > startv then startv + Math_pow x e * (targetv - startv)
      else targetv + Math_pow (1 - x) e * (startv - targetv))"

text \<open>The window \<open>[lo, hi)\<close>, and a window that starts at a finite time \<open>lo\<close>.\<close>

definition in_window :: "real \<Rightarrow> real \<Rightarrow> dur \<Rightarrow> bool" where
  "in_window t lo hi = (lo \<le> t \<and> dur_less t hi)"

fun in_window_from :: "real \<Rightarrow> dur \<Rightarrow> dur \<Rightarrow> bool" where
  "in_window_from t (Finite lo) hi = in_window t lo hi"
| "in_window_from t Infinity hi = False"

definition getValue_spec :: "ADSREnv \<Rightarrow> real \<Rightarrow> real \<Rightarrow> real \<Rightarrow> real \<Rightarrow> real \<Rightarrow> real" where
  "getValue_spec env curTime onT offT onA offA =
     (if offT = 0 then
        (if in_window (curTime - onT) 0 (env_a env) then
           interp_spec (dur_div (curTime - onT) (env_a env)) (aExp env) onA 1
         else if in_window_from (curTime - onT) (env_a env) (dur_add (env_a env) (env_d env)) then
           interp_spec (dur_div (dur_minus (curTime - onT) (env_a env)) (env_d env))
             (dExp env) 1 (env_s env)
         else env_s env)
      else
        (if in_window (curTime - offT) 0 (env_r env) then
           interp_spec (dur_div (curTime - offT) (env_r env)) (rExp env) offA 0
         else 0))"

section \<open>Ports (synth.ts, classes SynthOutput and SynthInput)\<close>

type_synonym buffer = "real list"

definition SYNTH_BUF_SIZE :: nat where "SYNTH_BUF_SIZE = 256"

definition SYNTH_ZERO_BUF :: buffer where
  "SYNTH_ZERO_BUF = replicate SYNTH_BUF_SIZE 0"

text \<open>
  Objects are mutable and shared, so ports and nodes live in a store and are named by
  references.  An output port holds the references of the inputs it feeds (\<open>dsts\<close>), an
  input port the reference of its source (\<open>src\<close>, \<open>undefined\<close> is \<open>None\<close>).  The channel
  count of an input is \<open>undefined\<close> when its constructor got none.
\<close>

type_synonym node_ref = nat
type_synonym out_ref = nat
type_synonym in_ref = nat

record SynthOutput =
  out_node :: node_ref
  out_name :: string
  out_numChans :: nat
  buffers :: "buffer list"
  hasData :: bool
  dsts :: "in_ref list"

record SynthInput =
  in_node :: node_ref
  in_name :: string
  in_numChans :: "nat option"
  src :: "out_ref option"

text \<open>
  A node, as far as the scheduler sees it: its enumerable properties that hold ports, in
  enumeration order, and the field \<open>inEdges\<close> that \<open>orderNodes\<close> attaches to it
  (\<open>None\<close> before the first run).
\<close>

datatype port = InPort in_ref | OutPort out_ref

record SynthNode =
  node_name :: string
  ports :: "port list"
  inEdges :: "out_ref list option"

record heap =
  outputs :: "out_ref \<Rightarrow> SynthOutput"
  inputs :: "in_ref \<Rightarrow> SynthInput"
  nodes :: "node_ref \<Rightarrow> SynthNode"

text \<open>The constructors, without the property that they store in the parent node.\<close>

definition SynthOutput_new :: "node_ref \<Rightarrow> string \<Rightarrow> nat option \<Rightarrow> SynthOutput" where
  "SynthOutput_new node name numChans =
     (let n = (case numChans of None \<Rightarrow> 1 | Some k \<Rightarrow> k) in
      \<lparr>out_node = node, out_name = name, out_numChans = n,
       buffers = replicate n (replicate SYNTH_BUF_SIZE 0), hasData = False, dsts = []\<rparr>)"

definition SynthInput_new :: "node_ref \<Rightarrow> string \<Rightarrow> nat option \<Rightarrow> SynthInput" where
  "SynthInput_new node name numChans =
     \<lparr>in_node = node, in_name = name, in_numChans = numChans, src = None\<rparr>"

text \<open>
  \<open>SynthOutput.getBuffer\<close>: the result and the port after the call.  A failed assertion
  leaves the port as it was.  An index outside the buffer array reads \<open>undefined\<close>
  (\<open>None\<close>).
\<close>

definition SynthOutput_getBuffer ::
  "SynthOutput \<Rightarrow> nat option \<Rightarrow> (error + buffer option) \<times> SynthOutput" where
  "SynthOutput_getBuffer out chanIdx =
     (if chanIdx = None \<and> out_numChans out > 1 then
        (Inl (Thrown ''channel idx must be specified when more than 1 channel''), out)
      else
        (let c = (case chanIdx of None \<Rightarrow> 0 | Some k \<Rightarrow> k);
             out' = out\<lparr>hasData := True\<rparr>
         in (Inr (if c < length (buffers out') then Some (buffers out' ! c) else None), out')))"

text \<open>\<open>SynthInput.hasData\<close> and \<open>SynthInput.getBuffer\<close>; neither changes the store.\<close>

definition SynthInput_hasData :: "heap \<Rightarrow> SynthInput \<Rightarrow> bool" where
  "SynthInput_hasData h inp =
     (case src inp of None \<Rightarrow> False | Some s \<Rightarrow> hasData (outputs h s))"

definition SynthInput_getBuffer :: "heap \<Rightarrow> SynthInput \<Rightarrow> nat option \<Rightarrow> error + buffer option" where
  "SynthInput_getBuffer h inp chanIdx =
     (case src inp of
        None \<Rightarrow> Inl (Thrown ''synth input not connected to any output'')
      | Some s \<Rightarrow>
          (let srcOut = outputs h s in
           if chanIdx = None \<and> (case in_numChans inp of None \<Rightarrow> False | Some k \<Rightarrow> k > 1) then
             Inl (Thrown ''channel idx must be specified when more than 1 channel'')
           else if \<not> ((case chanIdx of None \<Rightarrow> False | Some c \<Rightarrow> c < out_numChans srcOut)
                        \<or> out_numChans srcOut = 1) then
             Inl (Thrown ''invalid chan idx'')
           else if hasData srcOut = False then Inr (Some SYNTH_ZERO_BUF)
           else
             (let c = (case chanIdx of None \<Rightarrow> 0 | Some k \<Rightarrow> k);
                  c' = (if c \<ge> out_numChans srcOut then 0 else c)
              in Inr (if c' < length (buffers srcOut) then Some (buffers srcOut ! c') else None))))"

text \<open>
  \<open>SynthOutput.connect\<close>, on the store: the four assertions, then the two links.
\<close>

definition connect :: "heap \<Rightarrow> out_ref \<Rightarrow> in_ref \<Rightarrow> error + heap" where
  "connect h out dst =
     (let this = outputs h out; d = inputs h dst in
      if dst \<in> set (dsts this) then Inl (Thrown ''already connected to input'')
      else if src d \<noteq> None then Inl (Thrown ''dst already connected to an output'')
      else if \<not> (Some (out_numChans this) = in_numChans d \<or> out_numChans this = 1) then
        Inl (Thrown ''mismatch in the channel count'')
      else Inr (h\<lparr>outputs := (outputs h)(out := this\<lparr>dsts := dsts this @ [dst]\<rparr>),
                  inputs := (inputs h)(dst := d\<lparr>src := Some out\<rparr>)\<rparr>))"

text \<open>A store of fresh objects: no port is connected, no node has ports.\<close>

definition heap_new :: heap where
  "heap_new =
     \<lparr>outputs = (\<lambda>r. SynthOutput_new 0 [] None),
      inputs = (\<lambda>r. SynthInput_new 0 [] None),
      nodes = (\<lambda>r. \<lparr>node_name = [], ports = [], inEdges = None\<rparr>)\<rparr>"

text \<open>
  The two channel assertions of \<open>SynthInput.getBuffer\<close>, for a port connected to the
  output \<open>srcOut\<close>.
\<close>

definition chanIdx_asserts :: "SynthInput \<Rightarrow> SynthOutput \<Rightarrow> nat option \<Rightarrow> bool" where
  "chanIdx_asserts inp srcOut chanIdx =
     (\<not> (chanIdx = None \<and> (case in_numChans inp of None \<Rightarrow> False | Some k \<Rightarrow> k > 1))
      \<and> ((case chanIdx of None \<Rightarrow> False | Some c \<Rightarrow> c < out_numChans srcOut)
           \<or> out_numChans srcOut = 1))"

section \<open>The synthesis network (synth.ts, class SynthNet)\<close>

record SynthNet =
  net_sampleRate :: real
  net_nodes :: "node_ref list"
  outNode :: "node_ref option"
  order :: "node_ref list option"

text \<open>The field initialisers of the class: the order starts as the empty array.\<close>

definition SynthNet_new :: "real \<Rightarrow> SynthNet" where
  "SynthNet_new rate = \<lparr>net_sampleRate = rate, net_nodes = [], outNode = None, order = Some []\<rparr>"

text \<open>\<open>addNode\<close>; \<open>isOut\<close> says whether the node is an \<open>OutNode\<close>.\<close>

definition addNode :: "SynthNet \<Rightarrow> node_ref \<Rightarrow> bool \<Rightarrow> error + SynthNet" where
  "addNode net node isOut =
     (if node \<in> set (net_nodes net) then Inl (Thrown ''node already in network'')
      else if isOut \<and> outNode net \<noteq> None then Inl (Thrown ''output node already in network'')
      else Inr (net\<lparr>outNode := (if isOut then Some node else outNode net),
                    net_nodes := net_nodes net @ [node], order := None\<rparr>))"

subsection \<open>orderNodes\<close>

text \<open>
  The first loop of \<open>orderNodes\<close>.  For one node, \<open>collect_inEdges\<close> is the list that the
  inner loop pushes into \<open>node.inEdges\<close>: the source of every input port of the node that
  has one, in the enumeration order of the properties.  The state is the store, the
  array \<open>S\<close> and the counter \<open>numEdges\<close>.
\<close>

fun collect_inEdges :: "heap \<Rightarrow> port list \<Rightarrow> out_ref list" where
  "collect_inEdges h [] = []"
| "collect_inEdges h (InPort i # ps) =
     (case src (inputs h i) of
        None \<Rightarrow> collect_inEdges h ps
      | Some s \<Rightarrow> s # collect_inEdges h ps)"
| "collect_inEdges h (OutPort out # ps) = collect_inEdges h ps"

fun order_init :: "node_ref list \<Rightarrow> heap \<times> node_ref list \<times> int \<Rightarrow> heap \<times> node_ref list \<times> int" where
  "order_init [] st = st"
| "order_init (node # rest) (h, S, numEdges) =
     (let es = collect_inEdges h (ports (nodes h node));
          h' = h\<lparr>nodes := (nodes h)(node := (nodes h node)\<lparr>inEdges := Some es\<rparr>)\<rparr>
      in order_init rest (h', if length es = 0 then S @ [node] else S, numEdges + int (length es)))"

text \<open>
  The two inner loops of the second phase.  A loop that throws returns the error with the
  state at that point.  \<open>remove_edges\<close> is the loop over \<open>synthOut.dsts\<close>: the first
  occurrence of the output is spliced out of \<open>dstNode.inEdges\<close>; reading \<open>indexOf\<close> of an
  \<open>inEdges\<close> that was never set is a \<open>TypeError\<close>.
\<close>

fun remove_edges :: "out_ref \<Rightarrow> in_ref list \<Rightarrow> heap \<times> node_ref list \<times> int
    \<Rightarrow> error option \<times> heap \<times> node_ref list \<times> int" where
  "remove_edges synthOut [] st = (None, st)"
| "remove_edges synthOut (dstIn # rest) (h, S, numEdges) =
     (let dstNode = in_node (inputs h dstIn) in
      case inEdges (nodes h dstNode) of
        None \<Rightarrow> (Some TypeError, h, S, numEdges)
      | Some es \<Rightarrow>
          if synthOut \<notin> set es then (Some (Thrown ''input port not found''), h, S, numEdges)
          else
            (let es' = remove1 synthOut es;
                 h' = h\<lparr>nodes := (nodes h)(dstNode := (nodes h dstNode)\<lparr>inEdges := Some es'\<rparr>)\<rparr>
             in remove_edges synthOut rest
                  (h', if length es' = 0 then S @ [dstNode] else S, numEdges - 1)))"

fun process_outputs :: "port list \<Rightarrow> heap \<times> node_ref list \<times> int
    \<Rightarrow> error option \<times> heap \<times> node_ref list \<times> int" where
  "process_outputs [] st = (None, st)"
| "process_outputs (OutPort synthOut # ps) (h, S, numEdges) =
     (case remove_edges synthOut (dsts (outputs h synthOut)) (h, S, numEdges) of
        (Some e, st') \<Rightarrow> (Some e, st')
      | (None, st') \<Rightarrow> process_outputs ps st')"
| "process_outputs (InPort i # ps) st = process_outputs ps st"

text \<open>
  The loop \<open>while (S.length > 0)\<close>: pop the last node of \<open>S\<close>, push it on \<open>L\<close>, remove
  the edges that leave it.  The loop is a partial function: \<open>None\<close> is a loop that does
  not end.
\<close>

partial_function (option) order_loop :: "heap \<times> node_ref list \<times> node_ref list \<times> int
    \<Rightarrow> (error option \<times> heap \<times> node_ref list \<times> node_ref list \<times> int) option" where
  "order_loop st =
     (case st of (h, S, L, numEdges) \<Rightarrow>
        if length S > 0 then
          (let node = last S; S' = butlast S; L' = L @ [node] in
           case process_outputs (ports (nodes h node)) (h, S', numEdges) of
             (Some e, h', S'', numEdges') \<Rightarrow> Some (Some e, h', S'', L', numEdges')
           | (None, h', S'', numEdges') \<Rightarrow> order_loop (h', S'', L', numEdges'))
        else Some (None, h, S, L, numEdges))"

declare order_loop.simps [code]

text \<open>
  \<open>orderNodes\<close>: the result is the error thrown, if any, with the store and the network
  as the call leaves them.  The order is stored by the last statement only.
\<close>

definition orderNodes :: "heap \<Rightarrow> SynthNet \<Rightarrow> (error option \<times> heap \<times> SynthNet) option" where
  "orderNodes h net =
     (case order_init (net_nodes net) (h, [], 0) of
        (h1, S, numEdges) \<Rightarrow>
          (case order_loop (h1, S, [], numEdges) of
             None \<Rightarrow> None
           | Some (Some e, h2, S2, L, numEdges2) \<Rightarrow> Some (Some e, h2, net)
           | Some (None, h2, S2, L, numEdges2) \<Rightarrow>
               if numEdges2 \<noteq> 0 then Some (Some (Thrown ''cycle in graph''), h2, net)
               else if length L \<noteq> length (net_nodes net) then
                 Some (Some (Thrown ''invalid ordering length''), h2, net)
               else Some (None, h2, net\<lparr>order := Some L\<rparr>)))"

subsection \<open>The connection graph of a network\<close>

text \<open>The input and output ports among the properties of a node.\<close>

fun in_ports :: "port list \<Rightarrow> in_ref list" where
  "in_ports [] = []"
| "in_ports (InPort i # ps) = i # in_ports ps"
| "in_ports (OutPort out # ps) = in_ports ps"

fun out_ports :: "port list \<Rightarrow> out_ref list" where
  "out_ports [] = []"
| "out_ports (OutPort out # ps) = out # out_ports ps"
| "out_ports (InPort i # ps) = out_ports ps"

definition node_ins :: "heap \<Rightarrow> node_ref \<Rightarrow> in_ref list" where
  "node_ins h n = in_ports (ports (nodes h n))"

definition node_outs :: "heap \<Rightarrow> node_ref \<Rightarrow> out_ref list" where
  "node_outs h n = out_ports (ports (nodes h n))"

text \<open>
  The node \<open>m\<close> feeds the node \<open>n\<close>: an output port of \<open>m\<close> is the source of an input port
  of \<open>n\<close>.  \<open>net_edges\<close> is this relation on the nodes of the network.
\<close>

definition feeds :: "heap \<Rightarrow> node_ref \<Rightarrow> node_ref \<Rightarrow> bool" where
  "feeds h m n =
     list_ex (\<lambda>i. list_ex (\<lambda>out. src (inputs h i) = Some out) (node_outs h m)) (node_ins h n)"

definition net_edges :: "heap \<Rightarrow> SynthNet \<Rightarrow> (node_ref \<times> node_ref) set" where
  "net_edges h net =
     {(m, n). m \<in> set (net_nodes net) \<and> n \<in> set (net_nodes net) \<and> feeds h m n}"

text \<open>
  The store of a network is well formed when it is as the constructors, \<open>connect\<close> and
  \<open>addNode\<close> leave it: the nodes of the network are distinct; a port is a property of the
  node it names as its parent, once, and of no other node of the network; an output lists
  an input among its destinations exactly when it is the source of that input, and lists it
  once; and every port connected to a port of the network belongs to a node of the network.
\<close>

definition wf_net :: "heap \<Rightarrow> SynthNet \<Rightarrow> bool" where
  "wf_net h net =
     (distinct (net_nodes net)
      \<and> list_all (\<lambda>n. distinct (node_ins h n) \<and> distinct (node_outs h n)
            \<and> list_all (\<lambda>i. in_node (inputs h i) = n) (node_ins h n)
            \<and> list_all (\<lambda>out. out_node (outputs h out) = n
                  \<and> distinct (dsts (outputs h out))
                  \<and> list_all (\<lambda>i. src (inputs h i) = Some out
                        \<and> in_node (inputs h i) \<in> set (net_nodes net)
                        \<and> i \<in> set (node_ins h (in_node (inputs h i))))
                      (dsts (outputs h out)))
                (node_outs h n)
            \<and> list_all (\<lambda>i. case src (inputs h i) of
                    None \<Rightarrow> True
                  | Some out \<Rightarrow> i \<in> set (dsts (outputs h out))
                      \<and> out_node (outputs h out) \<in> set (net_nodes net)
                      \<and> out \<in> set (node_outs h (out_node (outputs h out))))
                (node_ins h n))
          (net_nodes net))"

text \<open>
  An order is topological when it lists every node of the network exactly once and every
  node after all the nodes that feed it.
\<close>

definition topological :: "heap \<Rightarrow> SynthNet \<Rightarrow> node_ref list \<Rightarrow> bool" where
  "topological h net L =
     (distinct L \<and> set L = set (net_nodes net) \<and> length L = length (net_nodes net)
      \<and> list_all (\<lambda>k. list_all (\<lambda>m. feeds h m (L ! k) \<longrightarrow> m \<in> set (take k L)) (net_nodes net))
          [0..<length L])"

subsection \<open>Notions for the correctness of orderNodes\<close>

text \<open>
  An edge of the graph is an input port that has a source.  For a set \<open>X\<close> of input
  ports whose edge has been removed, \<open>pending h X n\<close> lists the sources of the other
  connected input ports of the node \<open>n\<close>; \<open>fed_inputs h L\<close> is the set of the input ports
  fed by the outputs of the nodes of \<open>L\<close>.
\<close>

definition pending :: "heap \<Rightarrow> in_ref set \<Rightarrow> node_ref \<Rightarrow> out_ref list" where
  "pending h X n =
     map (\<lambda>i. the (src (inputs h i)))
       (filter (\<lambda>i. src (inputs h i) \<noteq> None \<and> i \<notin> X) (node_ins h n))"

definition fed_inputs :: "heap \<Rightarrow> node_ref list \<Rightarrow> in_ref set" where
  "fed_inputs h L = (\<Union>m\<in>set L. \<Union>out\<in>set (node_outs h m). set (dsts (outputs h out)))"

text \<open>\<open>orderNodes\<close> writes nothing but the field \<open>inEdges\<close> of nodes.\<close>

definition same_graph :: "heap \<Rightarrow> heap \<Rightarrow> bool" where
  "same_graph h h0 =
     (inputs h = inputs h0 \<and> outputs h = outputs h0
      \<and> (\<forall>n. ports (nodes h n) = ports (nodes h0 n) \<and> node_name (nodes h n) = node_name (nodes h0 n)))"

text \<open>
  The invariant of the loops: with the edges \<open>X\<close> removed, the \<open>inEdges\<close> of every node
  of the network holds its pending sources, in some order, \<open>numEdges\<close> counts them, and
  the nodes without pending sources are the nodes of \<open>S\<close> and \<open>L\<close>, each once.
\<close>

definition order_inv :: "heap \<Rightarrow> SynthNet \<Rightarrow> node_ref list \<Rightarrow> in_ref set
    \<Rightarrow> heap \<times> node_ref list \<times> int \<Rightarrow> bool" where
  "order_inv h0 net L X st =
     (case st of (h, S, numEdges) \<Rightarrow>
        same_graph h h0
        \<and> (\<forall>n\<in>set (net_nodes net).
              \<exists>es. inEdges (nodes h n) = Some es \<and> mset es = mset (pending h0 X n))
        \<and> numEdges = (\<Sum>n\<leftarrow>net_nodes net. int (length (pending h0 X n)))
        \<and> distinct (S @ L) \<and> set S \<subseteq> set (net_nodes net)
        \<and> (\<forall>n\<in>set (net_nodes net). pending h0 X n = [] \<longleftrightarrow> n \<in> set S \<union> set L))"

text \<open>
  The invariant at the head of the \<open>while\<close> loop: the edges removed are those that leave
  the nodes of \<open>L\<close>, and every node of \<open>L\<close> comes after the nodes that feed it.
\<close>

definition loop_inv :: "heap \<Rightarrow> SynthNet \<Rightarrow> heap \<times> node_ref list \<times> node_ref list \<times> int \<Rightarrow> bool" where
  "loop_inv h0 net st =
     (case st of (h, S, L, numEdges) \<Rightarrow>
        order_inv h0 net L (fed_inputs h0 L) (h, S, numEdges)
        \<and> set L \<subseteq> set (net_nodes net)
        \<and> (\<forall>k<length L. \<forall>m\<in>set (net_nodes net). feeds h0 m (L ! k) \<longrightarrow> m \<in> set (take k L)))"

subsection \<open>Two example networks\<close>

text \<open>
  A chain: the instrument node 0 with the output port 0, the output node 1 with the input
  port 0 (two channels), connected by \<open>connect\<close>; the output node was added to the network
  first.  A ring: two effect nodes, each with an input and an output, that feed each other.
\<close>

definition chain_heap :: heap where
  "chain_heap =
     \<lparr>outputs = (outputs heap_new)(0 := (SynthOutput_new 0 ''output'' None)\<lparr>dsts := [0]\<rparr>),
      inputs = (inputs heap_new)(0 := (SynthInput_new 1 ''signal'' (Some 2))\<lparr>src := Some 0\<rparr>),
      nodes = (nodes heap_new)
        (0 := \<lparr>node_name = ''vanalog'', ports = [OutPort 0], inEdges = None\<rparr>,
         1 := \<lparr>node_name = ''output'', ports = [InPort 0], inEdges = None\<rparr>)\<rparr>"

definition chain_net :: SynthNet where
  "chain_net = \<lparr>net_sampleRate = 44100, net_nodes = [1, 0], outNode = Some 1, order = None\<rparr>"

definition ring_heap :: heap where
  "ring_heap =
     \<lparr>outputs = (outputs heap_new)
        (0 := (SynthOutput_new 0 ''output'' None)\<lparr>dsts := [1]\<rparr>,
         1 := (SynthOutput_new 1 ''output'' None)\<lparr>dsts := [0]\<rparr>),
      inputs = (inputs heap_new)
        (0 := (SynthInput_new 0 ''input'' None)\<lparr>src := Some 1\<rparr>,
         1 := (SynthInput_new 1 ''input'' None)\<lparr>src := Some 0\<rparr>),
      nodes = (nodes heap_new)
        (0 := \<lparr>node_name = ''overdrive'', ports = [InPort 0, OutPort 0], inEdges = None\<rparr>,
         1 := \<lparr>node_name = ''overdrive'', ports = [InPort 1, OutPort 1], inEdges = None\<rparr>)\<rparr>"

definition ring_net :: SynthNet where
  "ring_net = \<lparr>net_sampleRate = 44100, net_nodes = [0, 1], outNode = None, order = None\<rparr>"

text \<open>
  The chain again, in a network to which only the output node was added: \<open>connect\<close> does
  not require that the nodes of the ports it connects are nodes of a network.
\<close>

definition dangling_net :: SynthNet where
  "dangling_net = \<lparr>net_sampleRate = 44100, net_nodes = [1], outNode = Some 1, order = None\<rparr>"

text \<open>The outcome of \<open>orderNodes\<close> without the store: the error and the stored order.\<close>

definition order_outcome :: "(error option \<times> heap \<times> SynthNet) option
    \<Rightarrow> (error option \<times> node_ref list option) option" where
  "order_outcome r = map_option (\<lambda>(e, h, net). (e, order net)) r"

subsection \<open>genOutput\<close>

text \<open>
  \<open>update\<close> is an abstract method of \<open>SynthNode\<close>.  What a node's update does to the
  output ports is the sequence of its calls of \<open>getBuffer\<close> on them and of its writes
  into the buffers that these calls return; the parameter \<open>upd\<close> gives this sequence for
  a node, the time, the sample rate and the store in which the update starts.  A write
  replaces the samples of one channel buffer.
\<close>

datatype port_op = GetBuffer out_ref "nat option" | WriteBuffer out_ref nat buffer

fun op_port :: "port_op \<Rightarrow> out_ref" where
  "op_port (GetBuffer out chanIdx) = out"
| "op_port (WriteBuffer out chan buf) = out"

fun run_port_op :: "port_op \<Rightarrow> heap \<Rightarrow> error + heap" where
  "run_port_op (GetBuffer out chanIdx) h =
     (case SynthOutput_getBuffer (outputs h out) chanIdx of
        (Inl e, out') \<Rightarrow> Inl e
      | (Inr b, out') \<Rightarrow> Inr (h\<lparr>outputs := (outputs h)(out := out')\<rparr>))"
| "run_port_op (WriteBuffer out chan buf) h =
     Inr (h\<lparr>outputs := (outputs h)
           (out := (outputs h out)\<lparr>buffers := (buffers (outputs h out))[chan := buf]\<rparr>)\<rparr>)"

fun run_port_ops :: "port_op list \<Rightarrow> heap \<Rightarrow> error + heap" where
  "run_port_ops [] h = Inr h"
| "run_port_ops (op # ops) h =
     (case run_port_op op h of
        Inl e \<Rightarrow> Inl e
      | Inr h' \<Rightarrow> run_port_ops ops h')"

text \<open>The loop that resets the outputs of a node: \<open>node[k].hasData = false\<close>.\<close>

fun reset_outputs :: "port list \<Rightarrow> heap \<Rightarrow> heap" where
  "reset_outputs [] h = h"
| "reset_outputs (OutPort out # ps) h =
     reset_outputs ps (h\<lparr>outputs := (outputs h)(out := (outputs h out)\<lparr>hasData := False\<rparr>)\<rparr>)"
| "reset_outputs (InPort i # ps) h = reset_outputs ps h"

text \<open>The body of the loop of \<open>genOutput\<close> for one node, the loop, and \<open>genOutput\<close>.\<close>

definition genOutput_node :: "(node_ref \<Rightarrow> real \<Rightarrow> real \<Rightarrow> heap \<Rightarrow> port_op list)
    \<Rightarrow> real \<Rightarrow> real \<Rightarrow> node_ref \<Rightarrow> heap \<Rightarrow> error + heap" where
  "genOutput_node upd time rate node h =
     (let h' = reset_outputs (ports (nodes h node)) h
      in run_port_ops (upd node time rate h') h')"

fun genOutput_loop :: "(node_ref \<Rightarrow> real \<Rightarrow> real \<Rightarrow> heap \<Rightarrow> port_op list)
    \<Rightarrow> real \<Rightarrow> real \<Rightarrow> node_ref list \<Rightarrow> heap \<Rightarrow> error + heap" where
  "genOutput_loop upd time rate [] h = Inr h"
| "genOutput_loop upd time rate (node # rest) h =
     (case genOutput_node upd time rate node h of
        Inl e \<Rightarrow> Inl e
      | Inr h' \<Rightarrow> genOutput_loop upd time rate rest h')"

definition genOutput :: "(node_ref \<Rightarrow> real \<Rightarrow> real \<Rightarrow> heap \<Rightarrow> port_op list)
    \<Rightarrow> SynthNet \<Rightarrow> real \<Rightarrow> heap \<Rightarrow> error + heap \<times> node_ref" where
  "genOutput upd net time h =
     (case order net of
        None \<Rightarrow> Inl (Thrown ''node ordering not found'')
      | Some ord \<Rightarrow>
          (case outNode net of
             None \<Rightarrow> Inl (Thrown ''genSample: output node not found'')
           | Some outN \<Rightarrow>
               (case genOutput_loop upd time (net_sampleRate net) ord h of
                  Inl e \<Rightarrow> Inl e
                | Inr h' \<Rightarrow> Inr (h', outN))))"

text \<open>
  The calls of \<open>getBuffer\<close> on an output among the operations of an update, and an update
  for the chain: the instrument calls \<open>getBuffer(0)\<close> on its output and writes a block,
  the output node does nothing.
\<close>

definition calls_getBuffer :: "port_op list \<Rightarrow> out_ref \<Rightarrow> bool" where
  "calls_getBuffer ops out = list_ex (\<lambda>op. case op of GetBuffer out' c \<Rightarrow> out' = out
                                              | WriteBuffer out' c b \<Rightarrow> False) ops"

definition chain_upd :: "node_ref \<Rightarrow> real \<Rightarrow> real \<Rightarrow> heap \<Rightarrow> port_op list" where
  "chain_upd node time rate h =
     (if node = 0 then [GetBuffer 0 (Some 0), WriteBuffer 0 0 (replicate SYNTH_BUF_SIZE 1)]
      else [])"

definition silent_upd :: "node_ref \<Rightarrow> real \<Rightarrow> real \<Rightarrow> heap \<Rightarrow> port_op list" where
  "silent_upd node time rate h = []"

section \<open>The analog voice node (vananlog.ts, class VAnalog)\<close>

text \<open>\<open>Note.getFreq\<close> (music.ts), with the detuning offset in cents.\<close>

definition getFreq :: "Note \<Rightarrow> real \<Rightarrow> real" where
  "getFreq n offs =
     (let noteExp = real_of_int (noteNo n - A4_NOTE_NO) / real_of_int NOTES_PER_OCTAVE;
          offsetExp = offs / CENTS_PER_OCTAVE
      in A4_NOTE_FREQ * Math_pow 2 (noteExp + offsetExp))"

record OSC =
  osc_type :: string
  duty :: real
  detune :: real
  osc_env :: ADSREnv
  volume :: real
  sync :: bool
  syncDetune :: real

record OSCState =
  cyclePos :: real
  syncCyclePos :: real
  onAmp :: real
  offAmp :: real

record VNote =
  vnote :: Note
  vel :: real
  onTime :: real
  offTime :: real
  oscStates :: "OSCState list"
  filterSt :: "real list"
  filterOnEnv :: real
  filterOffEnv :: real
  pitchOnEnv :: real
  pitchOffEnv :: real

record VAnalog =
  va_name :: string
  oscs :: "OSC list"
  cutoff :: real
  resonance :: real
  filterEnv :: ADSREnv
  filterEnvAmt :: real
  pitchEnv :: ADSREnv
  pitchEnvAmt :: real
  actNotes :: "VNote list"
  oscBuf :: buffer
  noteBuf :: buffer
  va_output :: out_ref

definition OSC_new :: OSC where
  "OSC_new = \<lparr>osc_type = ''sine'', duty = 0.5, detune = 0,
     osc_env = ADSREnv_new (Finite 0.05) (Finite 0.05) 0.2 (Finite 0.1), volume = 1, sync = False, syncDetune = 0\<rparr>"

text \<open>The constructor; \<open>out\<close> is the reference of the output port it creates.\<close>

definition VAnalog_new :: "nat \<Rightarrow> out_ref \<Rightarrow> VAnalog" where
  "VAnalog_new numOscs out =
     \<lparr>va_name = ''vanalog'', oscs = replicate numOscs OSC_new, cutoff = 1, resonance = 0,
      filterEnv = ADSREnv_new (Finite 0) (Finite 0) 1 Infinity,
      filterEnvAmt = 1,
      pitchEnv = ADSREnv_new (Finite 0) (Finite 0) 1 Infinity,
      pitchEnvAmt = 0, actNotes = [],
      oscBuf = replicate SYNTH_BUF_SIZE 0, noteBuf = replicate SYNTH_BUF_SIZE 0,
      va_output = out\<rparr>"

subsection \<open>processEvent\<close>

text \<open>The search loop: the index of the first active voice whose note is the event's.\<close>

fun find_note :: "VNote list \<Rightarrow> Note \<Rightarrow> nat option" where
  "find_note [] n = None"
| "find_note (st # sts) n =
     (if vnote st = n then Some 0 else map_option Suc (find_note sts n))"

definition OSCState_new :: OSCState where
  "OSCState_new = \<lparr>cyclePos = 0, syncCyclePos = 0, onAmp = 0, offAmp = 0\<rparr>"

definition VNote_new :: "VAnalog \<Rightarrow> Note \<Rightarrow> real \<Rightarrow> real \<Rightarrow> VNote" where
  "VNote_new va n v time =
     \<lparr>vnote = n, vel = v, onTime = time, offTime = 0,
      oscStates = replicate (length (oscs va)) OSCState_new,
      filterSt = replicate 8 0,
      filterOnEnv = 0, filterOffEnv = 0, pitchOnEnv = 0, pitchOffEnv = 0\<rparr>"

text \<open>
  The loops \<open>for (i = 0; i < this.oscs.length; ++i)\<close> over the oscillator parameters and
  the voice's oscillator states, as recursion over both arrays.  A voice with fewer states
  than the node has oscillators reads a field of \<open>undefined\<close>: a \<open>TypeError\<close>.
\<close>

fun noteOn_oscs :: "OSC list \<Rightarrow> OSCState list \<Rightarrow> real \<Rightarrow> real \<Rightarrow> real \<Rightarrow> error + OSCState list" where
  "noteOn_oscs [] sts time onT offT = Inr sts"
| "noteOn_oscs (p # ps) [] time onT offT = Inl TypeError"
| "noteOn_oscs (p # ps) (st # sts) time onT offT =
     (case noteOn_oscs ps sts time onT offT of
        Inl e \<Rightarrow> Inl e
      | Inr sts' \<Rightarrow>
          Inr (st\<lparr>onAmp := getValue (osc_env p) time onT offT (onAmp st) (offAmp st)\<rparr> # sts'))"

fun noteOff_oscs :: "OSC list \<Rightarrow> OSCState list \<Rightarrow> real \<Rightarrow> real \<Rightarrow> real \<Rightarrow> error + OSCState list" where
  "noteOff_oscs [] sts time onT offT = Inr sts"
| "noteOff_oscs (p # ps) [] time onT offT = Inl TypeError"
| "noteOff_oscs (p # ps) (st # sts) time onT offT =
     (case noteOff_oscs ps sts time onT offT of
        Inl e \<Rightarrow> Inl e
      | Inr sts' \<Rightarrow>
          Inr (st\<lparr>offAmp := getValue (osc_env p) time onT offT (onAmp st) (offAmp st)\<rparr> # sts'))"

text \<open>
  \<open>VAnalog.processEvent(evt, time)\<close>.  The time field of the event is not read: the
  times stored are the argument \<open>time\<close>.
\<close>

definition processEvent :: "VAnalog \<Rightarrow> SynthEvt \<Rightarrow> real \<Rightarrow> error + VAnalog" where
  "processEvent va evt time =
     (case evt of
        NoteOnEvt _ n v \<Rightarrow>
          (case find_note (actNotes va) n of
             None \<Rightarrow> Inr (va\<lparr>actNotes := actNotes va @ [VNote_new va n v time]\<rparr>)
           | Some k \<Rightarrow>
               (let noteState = actNotes va ! k in
                case noteOn_oscs (oscs va) (oscStates noteState) time
                       (onTime noteState) (offTime noteState) of
                  Inl e \<Rightarrow> Inl e
                | Inr sts \<Rightarrow>
                    Inr (va\<lparr>actNotes := (actNotes va)[k := noteState
                      \<lparr>oscStates := sts,
                       filterOnEnv := getValue (filterEnv va) time (onTime noteState)
                          (offTime noteState) (filterOnEnv noteState) (filterOffEnv noteState),
                       pitchOnEnv := getValue (pitchEnv va) time (onTime noteState)
                          (offTime noteState) (pitchOnEnv noteState) (pitchOffEnv noteState),
                       vel := v, onTime := time, offTime := 0\<rparr>]\<rparr>)))
      | NoteOffEvt _ n \<Rightarrow>
          (case find_note (actNotes va) n of
             None \<Rightarrow> Inr va
           | Some k \<Rightarrow>
               (let noteState = actNotes va ! k in
                case noteOff_oscs (oscs va) (oscStates noteState) time
                       (onTime noteState) (offTime noteState) of
                  Inl e \<Rightarrow> Inl e
                | Inr sts \<Rightarrow>
                    Inr (va\<lparr>actNotes := (actNotes va)[k := noteState
                      \<lparr>oscStates := sts,
                       filterOffEnv := getValue (filterEnv va) time (onTime noteState)
                          (offTime noteState) (filterOnEnv noteState) (filterOffEnv noteState),
                       pitchOffEnv := getValue (pitchEnv va) time (onTime noteState)
                          (offTime noteState) (pitchOnEnv noteState) (pitchOffEnv noteState),
                       offTime := time\<rparr>]\<rparr>)))
      | AllNotesOffEvt _ \<Rightarrow> Inr (va\<lparr>actNotes := []\<rparr>))"

text \<open>
  The relation that the retrigger branch is compared with: \<open>new\<close> is the voice \<open>old\<close>
  retriggered at time \<open>t\<close> with velocity \<open>v\<close> on a node with the oscillators \<open>ps\<close> and
  the filter and pitch envelopes \<open>fe\<close> and \<open>pe\<close>.  Every envelope is read at \<open>t\<close> under
  the on and off times and amplitudes of \<open>old\<close>.
\<close>

definition retriggered :: "OSC list \<Rightarrow> ADSREnv \<Rightarrow> ADSREnv \<Rightarrow> real \<Rightarrow> real \<Rightarrow> VNote \<Rightarrow> VNote \<Rightarrow> bool" where
  "retriggered ps fe pe t v old new =
     (length (oscStates new) = length (oscStates old)
      \<and> list_all (\<lambda>i. oscStates new ! i =
            (oscStates old ! i)\<lparr>onAmp := getValue (osc_env (ps ! i)) t (onTime old) (offTime old)
                (onAmp (oscStates old ! i)) (offAmp (oscStates old ! i))\<rparr>) [0..<length ps]
      \<and> list_all (\<lambda>i. oscStates new ! i = oscStates old ! i) [length ps..<length (oscStates old)]
      \<and> filterOnEnv new = getValue fe t (onTime old) (offTime old) (filterOnEnv old) (filterOffEnv old)
      \<and> pitchOnEnv new = getValue pe t (onTime old) (offTime old) (pitchOnEnv old) (pitchOffEnv old)
      \<and> onTime new = t \<and> offTime new = 0 \<and> vel new = v
      \<and> vnote new = vnote old \<and> filterSt new = filterSt old
      \<and> filterOffEnv new = filterOffEnv old \<and> pitchOffEnv new = pitchOffEnv old)"

text \<open>
  An example state: a node with one oscillator (the constructor's envelope, release 0.1 s)
  and one voice for note 60 that was started at time 0 and released at time 1 at amplitude
  0.4.
\<close>

definition released_voice :: VNote where
  "released_voice =
     \<lparr>vnote = Note 60, vel = 1, onTime = 0, offTime = 1,
      oscStates = [\<lparr>cyclePos = 0, syncCyclePos = 0, onAmp = 0, offAmp = 2/5\<rparr>],
      filterSt = replicate 8 0,
      filterOnEnv = 0, filterOffEnv = 1, pitchOnEnv = 0, pitchOffEnv = 1\<rparr>"

definition released_node :: VAnalog where
  "released_node = (VAnalog_new 1 0)\<lparr>actNotes := [released_voice]\<rparr>"

text \<open>
  An envelope resumes an attack from the stored amplitude when its attack time and its
  attack exponent are positive: then the attack branch of \<open>getValue\<close> is the one taken at
  the time the note is switched on.
\<close>

definition attack_positive :: "ADSREnv \<Rightarrow> bool" where
  "attack_positive env = (dur_less 0 (env_a env) \<and> 0 < aExp env)"

text \<open>
  The same voice on a node whose oscillator has the envelope of the bass patch of
  \<open>initSynth\<close> (effects.ts): attack 0, decay 0.3, sustain 0.1, release 0.2.
\<close>

definition bass_env :: ADSREnv where
  "bass_env = (osc_env OSC_new)\<lparr>env_a := Finite 0, env_d := Finite 0.3, env_s := 0.1,
     env_r := Finite 0.2\<rparr>"

definition bass_node :: VAnalog where
  "bass_node = (VAnalog_new 1 0)\<lparr>oscs := [OSC_new\<lparr>osc_env := bass_env\<rparr>],
     actNotes := [released_voice]\<rparr>"

subsection \<open>update\<close>

text \<open>
  The sample loops write typed arrays of fixed length: a write past the end is ignored,
  as \<open>xs[i := v]\<close> is.  \<open>Math.random()\<close> is a parameter \<open>rnd\<close>, the stream of the numbers
  it returns, with the count \<open>k\<close> of the calls made so far.
\<close>

definition osc_sample :: "(nat \<Rightarrow> real) \<Rightarrow> OSC \<Rightarrow> real \<Rightarrow> nat \<Rightarrow> error + real \<times> nat" where
  "osc_sample rnd p pos k =
     (if osc_type p = ''sine'' then Inr (sin (2 * pi * pos), k)
      else if osc_type p = ''triangle'' then
        Inr (if pos < 0.5 then (4 * pos) - 1 else 1 - (4 * (pos - 0.5)), k)
      else if osc_type p = ''sawtooth'' then Inr (-1 + (2 * pos), k)
      else if osc_type p = ''pulse'' then Inr (if pos < duty p then -1 else 1, k)
      else if osc_type p = ''noise'' then Inr (1 - 2 * rnd k, Suc k)
      else Inl (Thrown (''invalid waveform: '' @ osc_type p)))"

text \<open>
  The sample loop of \<open>genOsc\<close> over the indices of the buffer; the state is the buffer,
  \<open>cyclePos\<close>, \<open>syncCyclePos\<close> and the count of random numbers drawn.
\<close>

fun genOsc_loop :: "(nat \<Rightarrow> real) \<Rightarrow> OSC \<Rightarrow> real \<Rightarrow> real \<Rightarrow> nat list
    \<Rightarrow> buffer \<times> real \<times> real \<times> nat \<Rightarrow> error + buffer \<times> real \<times> real \<times> nat" where
  "genOsc_loop rnd p deltaPos syncDeltaPos [] st = Inr st"
| "genOsc_loop rnd p deltaPos syncDeltaPos (i # rest) (buf, pos, spos, k) =
     (case osc_sample rnd p pos k of
        Inl e \<Rightarrow> Inl e
      | Inr (smp, k') \<Rightarrow>
          (let buf' = buf[i := smp];
               pos1 = pos + deltaPos;
               pos2 = (if pos1 > 1 then pos1 - 1 else pos1)
           in if sync p = True then
                (let spos1 = spos + syncDeltaPos in
                 if spos1 > 1 then
                   genOsc_loop rnd p deltaPos syncDeltaPos rest (buf', 0, spos1 - 1, k')
                 else genOsc_loop rnd p deltaPos syncDeltaPos rest (buf', pos2, spos1, k'))
              else genOsc_loop rnd p deltaPos syncDeltaPos rest (buf', pos2, spos, k')))"

definition genOsc :: "(nat \<Rightarrow> real) \<Rightarrow> VAnalog \<Rightarrow> real \<Rightarrow> buffer \<Rightarrow> OSC \<Rightarrow> OSCState \<Rightarrow> VNote
    \<Rightarrow> real \<Rightarrow> nat \<Rightarrow> error + buffer \<times> OSCState \<times> nat" where
  "genOsc rnd va time outBuf oscParams oscState noteState sampleRate k =
     (let envDetune = pitchEnvAmt va * getValue (pitchEnv va) time (onTime noteState)
            (offTime noteState) (pitchOnEnv noteState) (pitchOffEnv noteState);
          freq = getFreq (vnote noteState) (detune oscParams + envDetune);
          deltaPos = freq / sampleRate;
          syncFreq = getFreq (vnote noteState) (syncDetune oscParams);
          syncDeltaPos = syncFreq / sampleRate
      in case genOsc_loop rnd oscParams deltaPos syncDeltaPos [0..<length outBuf]
                (outBuf, cyclePos oscState, syncCyclePos oscState, k) of
           Inl e \<Rightarrow> Inl e
         | Inr (buf, pos, spos, k') \<Rightarrow>
             Inr (buf, oscState\<lparr>cyclePos := pos, syncCyclePos := spos\<rparr>, k'))"

text \<open>
  The loop over the oscillators of one voice: \<open>genOsc\<close>, the amplitudes at the start and
  at the end of the block, the running maximum \<open>maxEndAmp\<close>, the amplitude ramp over
  \<open>oscBuf\<close> and the accumulation into \<open>noteBuf\<close>.  \<open>len\<close> is \<open>outBuf.length\<close>.
\<close>

fun update_oscs :: "(nat \<Rightarrow> real) \<Rightarrow> VAnalog \<Rightarrow> real \<Rightarrow> real \<Rightarrow> real \<Rightarrow> nat \<Rightarrow> VNote
    \<Rightarrow> OSC list \<Rightarrow> OSCState list \<Rightarrow> buffer \<times> buffer \<times> real \<times> nat
    \<Rightarrow> error + OSCState list \<times> buffer \<times> buffer \<times> real \<times> nat" where
  "update_oscs rnd va time endTime sampleRate len noteState [] sts acc = Inr (sts, acc)"
| "update_oscs rnd va time endTime sampleRate len noteState (p # ps) [] acc = Inl TypeError"
| "update_oscs rnd va time endTime sampleRate len noteState (p # ps) (st # sts)
       (ob, nb, maxEndAmp, k) =
     (case genOsc rnd va time ob p st noteState sampleRate k of
        Inl e \<Rightarrow> Inl e
      | Inr (ob1, st', k') \<Rightarrow>
          (let noteVol = vel noteState * volume p;
               ampStart = noteVol * getValue (osc_env p) time (onTime noteState)
                  (offTime noteState) (onAmp st') (offAmp st');
               ampEnd = noteVol * getValue (osc_env p) endTime (onTime noteState)
                  (offTime noteState) (onAmp st') (offAmp st');
               maxEndAmp' = max maxEndAmp ampEnd;
               ob2 = fold (\<lambda>smpIdx b.
                        b[smpIdx := b ! smpIdx
                           * (ampStart + (real smpIdx / (real len - 1)) * (ampEnd - ampStart))])
                      [0..<len] ob1;
               nb' = fold (\<lambda>smpIdx b. b[smpIdx := b ! smpIdx + ob2 ! smpIdx]) [0..<len] nb
           in case update_oscs rnd va time endTime sampleRate len noteState ps sts
                     (ob2, nb', maxEndAmp', k') of
                Inl e \<Rightarrow> Inl e
              | Inr (sts', r) \<Rightarrow> Inr (st' # sts', r)))"

text \<open>\<open>applyFilter\<close>: the two assertions, the coefficients and the recurrence.\<close>

definition applyFilter :: "VAnalog \<Rightarrow> real \<Rightarrow> VNote \<Rightarrow> buffer \<Rightarrow> error + VNote \<times> buffer" where
  "applyFilter va time noteState buf =
     (if \<not> (cutoff va \<ge> 0 \<and> cutoff va \<le> 1) then Inl (Thrown ''invalid filter cutoff'')
      else if \<not> (resonance va \<ge> 0 \<and> resonance va \<le> 1) then
        Inl (Thrown ''invalid filter resonance'')
      else
        (let filterEnvVal = getValue (filterEnv va) time (onTime noteState) (offTime noteState)
               (filterOnEnv noteState) (filterOffEnv noteState);
             filterEnvMag = (1 - cutoff va) * filterEnvAmt va;
             cut = cutoff va + filterEnvMag * filterEnvVal;
             c = Math_pow 0.5 ((1 - cut) / 0.125);
             r = Math_pow 0.5 ((resonance va + 0.125) / 0.125);
             mrc = 1 - r * c
         in case fold (\<lambda>i (v0, v1, b).
                    (let v0' = (mrc * v0) - (c * v1) + (c * (b ! i));
                         v1' = (mrc * v1) + (c * v0')
                     in (v0', v1', b[i := v1'])))
                  [0..<length buf] (filterSt noteState ! 0, filterSt noteState ! 1, buf) of
              (v0, v1, buf') \<Rightarrow>
                Inr (noteState\<lparr>filterSt := (filterSt noteState)[0 := v0, 1 := v1]\<rparr>, buf')))"

text \<open>
  The loop over the active voices.  A voice whose \<open>maxEndAmp\<close> is 0 is spliced out of the
  array and the index stays where it is; the recursion keeps the voices that were not
  spliced out, in order.  The state is \<open>outBuf\<close>, \<open>oscBuf\<close>, \<open>noteBuf\<close> and the count of
  random numbers drawn.
\<close>

fun update_notes :: "(nat \<Rightarrow> real) \<Rightarrow> VAnalog \<Rightarrow> real \<Rightarrow> real \<Rightarrow> real \<Rightarrow> nat \<Rightarrow> VNote list
    \<Rightarrow> buffer \<times> buffer \<times> buffer \<times> nat
    \<Rightarrow> error + VNote list \<times> buffer \<times> buffer \<times> buffer \<times> nat" where
  "update_notes rnd va time endTime sampleRate len [] acc = Inr ([], acc)"
| "update_notes rnd va time endTime sampleRate len (noteState # rest) (outB, ob, nb, k) =
     (let nb0 = fold (\<lambda>smpIdx b. b[smpIdx := 0]) [0..<len] nb in
      case update_oscs rnd va time endTime sampleRate len noteState (oscs va)
             (oscStates noteState) (ob, nb0, 0, k) of
        Inl e \<Rightarrow> Inl e
      | Inr (sts', ob', nb1, maxEndAmp, k') \<Rightarrow>
          (case applyFilter va time (noteState\<lparr>oscStates := sts'\<rparr>) nb1 of
             Inl e \<Rightarrow> Inl e
           | Inr (noteState', nb2) \<Rightarrow>
               (let outB' = fold (\<lambda>smpIdx b. b[smpIdx := b ! smpIdx + nb2 ! smpIdx])
                              [0..<len] outB
                in case update_notes rnd va time endTime sampleRate len rest
                          (outB', ob', nb2, k') of
                     Inl e \<Rightarrow> Inl e
                   | Inr (kept, r) \<Rightarrow>
                       Inr (if maxEndAmp = 0 then kept else noteState' # kept, r))))"

text \<open>
  \<open>VAnalog.update(time, sampleRate)\<close> on the node, the store that holds its output port,
  and the count of random numbers drawn.
\<close>

definition update :: "(nat \<Rightarrow> real) \<Rightarrow> real \<Rightarrow> real \<Rightarrow> VAnalog \<times> heap \<times> nat
    \<Rightarrow> error + VAnalog \<times> heap \<times> nat" where
  "update rnd time sampleRate s =
     (case s of (va, h, k) \<Rightarrow>
        if length (actNotes va) = 0 then Inr (va, h, k)
        else
          (case SynthOutput_getBuffer (outputs h (va_output va)) (Some 0) of
             (Inl e, out') \<Rightarrow> Inl e
           | (Inr None, out') \<Rightarrow> Inl TypeError
           | (Inr (Some outBuf), out') \<Rightarrow>
               (let len = length outBuf;
                    outBuf0 = fold (\<lambda>i b. b[i := 0]) [0..<len] outBuf;
                    endTime = time + ((real len - 1) / sampleRate)
                in case update_notes rnd va time endTime sampleRate len (actNotes va)
                          (outBuf0, oscBuf va, noteBuf va, k) of
                     Inl e \<Rightarrow> Inl e
                   | Inr (kept, outB, ob, nb, k') \<Rightarrow>
                       Inr (va\<lparr>actNotes := kept, oscBuf := ob, noteBuf := nb\<rparr>,
                            h\<lparr>outputs := (outputs h)
                                (va_output va := out'\<lparr>buffers := (buffers out')[0 := outB]\<rparr>)\<rparr>,
                            k'))))"

text \<open>
  What the retirement test of \<open>update\<close> reads, for a voice as it is before the update:
  the amplitude of each oscillator at the end of the block (velocity times oscillator
  volume times envelope value), the maximum of these amplitudes and 0, and the envelope
  values alone.
\<close>

fun endAmps :: "OSC list \<Rightarrow> VNote \<Rightarrow> OSCState list \<Rightarrow> real \<Rightarrow> real list" where
  "endAmps (p # ps) noteState (st # sts) endTime =
     ((vel noteState * volume p) * getValue (osc_env p) endTime (onTime noteState)
         (offTime noteState) (onAmp st) (offAmp st)) # endAmps ps noteState sts endTime"
| "endAmps _ noteState _ endTime = []"

fun endEnvs :: "OSC list \<Rightarrow> VNote \<Rightarrow> OSCState list \<Rightarrow> real \<Rightarrow> real list" where
  "endEnvs (p # ps) noteState (st # sts) endTime =
     getValue (osc_env p) endTime (onTime noteState)
         (offTime noteState) (onAmp st) (offAmp st) # endEnvs ps noteState sts endTime"
| "endEnvs _ noteState _ endTime = []"

definition maxEndAmp_of :: "VAnalog \<Rightarrow> real \<Rightarrow> VNote \<Rightarrow> real" where
  "maxEndAmp_of va endTime noteState =
     fold max (endAmps (oscs va) noteState (oscStates noteState) endTime) 0"

definition block_endTime :: "heap \<Rightarrow> VAnalog \<Rightarrow> real \<Rightarrow> real \<Rightarrow> real" where
  "block_endTime h va time sampleRate =
     time + ((real (length (buffers (outputs h (va_output va)) ! 0)) - 1) / sampleRate)"

text \<open>
  A voice after the update is the voice before it up to the fields that the sample loops
  write: \<open>cyclePos\<close>, \<open>syncCyclePos\<close> and \<open>filterSt\<close>.
\<close>

definition same_osc :: "OSCState \<Rightarrow> OSCState \<Rightarrow> bool" where
  "same_osc st' st = (onAmp st' = onAmp st \<and> offAmp st' = offAmp st)"

definition same_voice :: "VNote \<Rightarrow> VNote \<Rightarrow> bool" where
  "same_voice n' n =
     (vnote n' = vnote n \<and> vel n' = vel n \<and> onTime n' = onTime n \<and> offTime n' = offTime n
      \<and> filterOnEnv n' = filterOnEnv n \<and> filterOffEnv n' = filterOffEnv n
      \<and> pitchOnEnv n' = pitchOnEnv n \<and> pitchOffEnv n' = pitchOffEnv n
      \<and> list_all2 same_osc (oscStates n') (oscStates n))"

text \<open>The conditions under which no statement of \<open>update\<close> throws.\<close>

definition valid_waveform :: "string \<Rightarrow> bool" where
  "valid_waveform t = (t \<in> set [''sine'', ''triangle'', ''sawtooth'', ''pulse'', ''noise''])"

definition update_ready :: "heap \<Rightarrow> VAnalog \<Rightarrow> bool" where
  "update_ready h va =
     (list_all (\<lambda>p. valid_waveform (osc_type p)) (oscs va)
      \<and> list_all (\<lambda>n. length (oscStates n) = length (oscs va)) (actNotes va)
      \<and> 0 \<le> cutoff va \<and> cutoff va \<le> 1 \<and> 0 \<le> resonance va \<and> resonance va \<le> 1
      \<and> 0 < length (buffers (outputs h (va_output va))))"

text \<open>
  Example states for the update: a source of random numbers that always returns 0, and a
  node with one held voice of velocity 0 (started at time 0, not released).
\<close>

definition rnd_zero :: "nat \<Rightarrow> real" where
  "rnd_zero k = 0"

definition zero_vel_voice :: VNote where
  "zero_vel_voice =
     \<lparr>vnote = Note 60, vel = 0, onTime = 0, offTime = 0,
      oscStates = [OSCState_new], filterSt = replicate 8 0,
      filterOnEnv = 0, filterOffEnv = 0, pitchOnEnv = 0, pitchOffEnv = 0\<rparr>"

definition zero_vel_node :: VAnalog where
  "zero_vel_node = (VAnalog_new 1 0)\<lparr>actNotes := [zero_vel_voice]\<rparr>"

text \<open>The active notes after an update, or the error it threw.\<close>

definition notes_after :: "error + VAnalog \<times> heap \<times> nat \<Rightarrow> error + Note list" where
  "notes_after r = (case r of Inl e \<Rightarrow> Inl e | Inr (va, h, k) \<Rightarrow> Inr (map vnote (actNotes va)))"

section \<open>The piece and its render handler (piece.ts, class Piece)\<close>

record 'n Piece =
  tracks :: "'n Track list"
  playTime :: real
  loopTime :: real
  prevTime :: real
  beatsPerMin :: real
  beatsPerBar :: real
  noteVal :: real

definition Piece_new :: "'n Piece" where
  "Piece_new = \<lparr>tracks = [], playTime = 0, loopTime = 0, prevTime = 0,
     beatsPerMin = 140, beatsPerBar = 4, noteVal = 4\<rparr>"

text \<open>
  \<open>Piece.dispatch(curTime, realTime)\<close>: every track dispatches the window from the stored
  previous time to \<open>curTime\<close>, in track order, then the previous time becomes \<open>curTime\<close>.
\<close>

fun dispatch_tracks :: "('n \<Rightarrow> SynthEvt \<Rightarrow> real \<Rightarrow> 'w \<Rightarrow> error + 'w) \<Rightarrow> 'n Track list
    \<Rightarrow> real \<Rightarrow> real \<Rightarrow> real \<Rightarrow> 'w \<Rightarrow> error + 'w" where
  "dispatch_tracks pe [] prevT curT realT w = Inr w"
| "dispatch_tracks pe (tr # trs) prevT curT realT w =
     (case Track_dispatch pe tr prevT curT realT w of
        Inl e \<Rightarrow> Inl e
      | Inr w' \<Rightarrow> dispatch_tracks pe trs prevT curT realT w')"

definition Piece_dispatch :: "('n \<Rightarrow> SynthEvt \<Rightarrow> real \<Rightarrow> 'w \<Rightarrow> error + 'w) \<Rightarrow> 'n Piece
    \<Rightarrow> real \<Rightarrow> real \<Rightarrow> 'w \<Rightarrow> error + 'n Piece \<times> 'w" where
  "Piece_dispatch pe piece curT realT w =
     (case dispatch_tracks pe (tracks piece) (prevTime piece) curT realT w of
        Inl e \<Rightarrow> Inl e
      | Inr w' \<Rightarrow> Inr (piece\<lparr>prevTime := curT\<rparr>, w'))"

text \<open>
  One iteration of the block loop of the handler \<open>genAudio\<close> that \<open>makeHandler\<close> returns.
  The state is the piece, the closure variables \<open>curTime\<close> and \<open>realTime\<close>, and the state
  \<open>'w\<close> of the nodes and buffers.  The parameter \<open>gen\<close> stands for
  \<open>synthNet.genOutput(realTime)\<close> followed by the copy of the output node's buffers into
  the host buffer; it may throw.
\<close>

definition genAudio_block :: "('n \<Rightarrow> SynthEvt \<Rightarrow> real \<Rightarrow> 'w \<Rightarrow> error + 'w)
    \<Rightarrow> (real \<Rightarrow> 'w \<Rightarrow> error + 'w) \<Rightarrow> real
    \<Rightarrow> 'n Piece \<times> real \<times> real \<times> 'w \<Rightarrow> error + 'n Piece \<times> real \<times> real \<times> 'w" where
  "genAudio_block pe gen sampleRate st =
     (case st of (piece, curT, realT, w) \<Rightarrow>
        (case Piece_dispatch pe piece curT realT w of
           Inl e \<Rightarrow> Inl e
         | Inr (piece1, w1) \<Rightarrow>
             (case gen realT w1 of
                Inl e \<Rightarrow> Inl e
              | Inr w2 \<Rightarrow>
                  (let curT1 = curT + real SYNTH_BUF_SIZE / sampleRate;
                       realT1 = realT + real SYNTH_BUF_SIZE / sampleRate
                   in if playTime piece1 \<le> loopTime piece1 \<and> curT1 > loopTime piece1 then
                        (case Piece_dispatch pe piece1 (loopTime piece1 + 0.01) realT1 w2 of
                           Inl e \<Rightarrow> Inl e
                         | Inr (piece2, w3) \<Rightarrow>
                             Inr (piece2\<lparr>prevTime := 0, playTime := 0\<rparr>, 0, realT1, w3))
                      else Inr (piece1\<lparr>playTime := curT1\<rparr>, curT1, realT1, w2)))))"

text \<open>The block loop, for a number of blocks, and the handler with its prologue.\<close>

fun genAudio_blocks :: "('n \<Rightarrow> SynthEvt \<Rightarrow> real \<Rightarrow> 'w \<Rightarrow> error + 'w)
    \<Rightarrow> (real \<Rightarrow> 'w \<Rightarrow> error + 'w) \<Rightarrow> real \<Rightarrow> nat
    \<Rightarrow> 'n Piece \<times> real \<times> real \<times> 'w \<Rightarrow> error + 'n Piece \<times> real \<times> real \<times> 'w" where
  "genAudio_blocks pe gen sampleRate 0 st = Inr st"
| "genAudio_blocks pe gen sampleRate (Suc n) st =
     (case genAudio_block pe gen sampleRate st of
        Inl e \<Rightarrow> Inl e
      | Inr st' \<Rightarrow> genAudio_blocks pe gen sampleRate n st')"

definition genAudio :: "('n \<Rightarrow> SynthEvt \<Rightarrow> real \<Rightarrow> 'w \<Rightarrow> error + 'w)
    \<Rightarrow> (real \<Rightarrow> 'w \<Rightarrow> error + 'w) \<Rightarrow> real \<Rightarrow> nat \<Rightarrow> nat \<Rightarrow> nat
    \<Rightarrow> 'n Piece \<times> real \<times> real \<times> 'w \<Rightarrow> error + 'n Piece \<times> real \<times> real \<times> 'w" where
  "genAudio pe gen sampleRate outNumChans numChans numSamples st =
     (case st of (piece, curT, realT, w) \<Rightarrow>
        (let curT' = (if playTime piece \<noteq> curT then playTime piece else curT) in
         if numChans \<noteq> outNumChans then
           Inl (Thrown ''mismatch in the number of output channels'')
         else if numSamples mod SYNTH_BUF_SIZE \<noteq> 0 then
           Inl (Thrown ''the output buffer size must be a multiple of the synth buffer size'')
         else genAudio_blocks pe gen sampleRate (numSamples div SYNTH_BUF_SIZE)
                (piece, curT', realT, w)))"

text \<open>
  The sequence of calls that a window stands for: for every track with a target, in track
  order, \<open>processEvent(evt, realTime)\<close> for the events of the window.
\<close>

fun process_windows :: "('n \<Rightarrow> SynthEvt \<Rightarrow> real \<Rightarrow> 'w \<Rightarrow> error + 'w) \<Rightarrow> 'n Track list
    \<Rightarrow> real \<Rightarrow> real \<Rightarrow> real \<Rightarrow> 'w \<Rightarrow> error + 'w" where
  "process_windows pe [] prevT curT realT w = Inr w"
| "process_windows pe (tr # trs) prevT curT realT w =
     (case target tr of
        None \<Rightarrow> process_windows pe trs prevT curT realT w
      | Some tgt \<Rightarrow>
          (case process_all pe tgt realT (window_events tr prevT curT) w of
             Inl e \<Rightarrow> Inl e
           | Inr w' \<Rightarrow> process_windows pe trs prevT curT realT w'))"

text \<open>A \<open>gen\<close> that produces audio without touching the record of calls.\<close>

definition gen_silent :: "real \<Rightarrow> 'w \<Rightarrow> error + 'w" where
  "gen_silent realT w = Inr w"

text \<open>The calls that the tracks' windows make on a target that records its calls.\<close>

definition track_calls :: "'n Track \<Rightarrow> real \<Rightarrow> real \<Rightarrow> real \<Rightarrow> ('n \<times> SynthEvt \<times> real) list" where
  "track_calls tr prevT curT realT =
     (case target tr of
        None \<Rightarrow> []
      | Some tgt \<Rightarrow> map (\<lambda>e. (tgt, e, realT)) (window_events tr prevT curT))"

definition window_calls :: "'n Track list \<Rightarrow> real \<Rightarrow> real \<Rightarrow> real \<Rightarrow> ('n \<times> SynthEvt \<times> real) list" where
  "window_calls trs prevT curT realT = concat (map (\<lambda>tr. track_calls tr prevT curT realT) trs)"

text \<open>
  An example: loop time 2.0, one track with events at 0, 1.95 and 2.0 for the target 3,
  playback at 1.9 after a block that started at 1.7.
\<close>

definition loop_example :: "nat Piece" where
  "loop_example =
     \<lparr>tracks = [\<lparr>events = [NoteOnEvt 0 (Note 60) 1, NoteOffEvt (39/20) (Note 60),
                            NoteOnEvt 2 (Note 62) 1],
                  target = Some 3\<rparr>],
      playTime = 19/10, loopTime = 2, prevTime = 17/10,
      beatsPerMin = 140, beatsPerBar = 4, noteVal = 4\<rparr>"

section \<open>Track.addEvent keeps the events sorted\<close>

lemma addEvent_sorts_iff:
  "addEvent_sorts (evs @ [evt]) evt \<longleftrightarrow> evs \<noteq> [] \<and> evt_time evt < evt_time (last evs)"
proof (cases evs rule: rev_cases)
  case Nil
  then show ?thesis by (simp add: addEvent_sorts_def)
next
  case (snoc ys y)
  then show ?thesis by (auto simp: addEvent_sorts_def nth_append)
qed

lemma addEvent_preserves_sorted:
  assumes "events_sorted tr"
  shows "events_sorted (addEvent tr evt)"
proof (cases "addEvent_sorts (events tr @ [evt]) evt")
  case True
  then show ?thesis by (simp add: addEvent_def events_sorted_def)
next
  case False
  then have "events tr = [] \<or> evt_time (last (events tr)) \<le> evt_time evt"
    by (auto simp: addEvent_sorts_iff)
  then have "\<forall>x\<in>set (map evt_time (events tr)). x \<le> evt_time evt"
  proof
    assume "events tr = []"
    then show ?thesis by simp
  next
    assume le: "evt_time (last (events tr)) \<le> evt_time evt"
    show ?thesis
    proof
      fix x assume x: "x \<in> set (map evt_time (events tr))"
      then have ne: "map evt_time (events tr) \<noteq> []" by auto
      from x obtain i where i: "i < length (map evt_time (events tr))"
        and xi: "x = map evt_time (events tr) ! i"
        by (metis in_set_conv_nth)
      have "map evt_time (events tr) ! i \<le> last (map evt_time (events tr))"
        using assms i ne unfolding events_sorted_def last_conv_nth[OF ne]
        by (intro sorted_nth_mono) auto
      also have "\<dots> = evt_time (last (events tr))"
        using ne by (simp add: last_map)
      finally show "x \<le> evt_time evt" using le xi by simp
    qed
  qed
  with assms False show ?thesis
    by (simp add: addEvent_def events_sorted_def sorted_append)
qed

lemma addEvent_foldl_sorted:
  "events_sorted tr \<Longrightarrow> events_sorted (foldl addEvent tr es)"
  by (induction es arbitrary: tr) (simp_all add: addEvent_preserves_sorted)

text \<open>
  Claim C9.  Starting from an empty track, after any sequence of \<open>addEvent\<close> calls (events
  in arbitrary time order) the event array is sorted ascending by time; \<open>addEvent\<close> and
  \<open>clear\<close> preserve sortedness of any sorted track; and \<open>addEvent\<close> takes the sorting
  branch exactly when the track was non-empty and the new event is strictly earlier than
  the previously last event, so it skips the sort exactly when the new event is at or after
  the previously last event (or there is none).
\<close>

theorem addEvent_sorted_invariant:
  "events_sorted (foldl addEvent (Track_new tgt) es)
   \<and> (events_sorted tr \<longrightarrow> events_sorted (addEvent tr evt) \<and> events_sorted (clear tr))
   \<and> (addEvent_sorts (events tr @ [evt]) evt
        \<longleftrightarrow> events tr \<noteq> [] \<and> evt_time evt < evt_time (last (events tr)))
   \<and> (\<not> addEvent_sorts (events tr @ [evt]) evt
        \<longrightarrow> events (addEvent tr evt) = events tr @ [evt])"
proof -
  have "events_sorted (Track_new tgt)"
    by (simp add: events_sorted_def Track_new_def)
  then have "events_sorted (foldl addEvent (Track_new tgt) es)"
    by (rule addEvent_foldl_sorted)
  moreover have "events_sorted (clear tr)"
    by (simp add: events_sorted_def clear_def)
  moreover have "events_sorted tr \<longrightarrow> events_sorted (addEvent tr evt)"
    by (simp add: addEvent_preserves_sorted)
  moreover have "\<not> addEvent_sorts (events tr @ [evt]) evt
        \<longrightarrow> events (addEvent tr evt) = events tr @ [evt]"
    by (simp add: addEvent_def)
  ultimately show ?thesis
    using addEvent_sorts_iff[of "events tr" evt] by blast
qed

theorem addEvent_sorted_invariant_witness:
  "events (foldl addEvent (Track_new (Some (0::nat)))
      [NoteOnEvt 1 (Note 60) 1, NoteOffEvt 2 (Note 60), NoteOnEvt 0 (Note 62) 1])
    = [NoteOnEvt 0 (Note 62) 1, NoteOnEvt 1 (Note 60) 1, NoteOffEvt 2 (Note 60)]
   \<and> events_sorted (foldl addEvent (Track_new (Some (0::nat)))
      [NoteOnEvt 1 (Note 60) 1, NoteOffEvt 2 (Note 60), NoteOnEvt 0 (Note 62) 1])
   \<and> events_sorted (addEvent \<lparr>events = [NoteOnEvt 1 (Note 60) 1], target = Some (0::nat)\<rparr>
        (NoteOffEvt 2 (Note 60)))
   \<and> \<not> addEvent_sorts ([NoteOnEvt 1 (Note 60) 1] @ [NoteOffEvt 2 (Note 60)]) (NoteOffEvt 2 (Note 60))"
  using addEvent_sorted_invariant[of "Some (0::nat)"
      "[NoteOnEvt 1 (Note 60) 1, NoteOffEvt 2 (Note 60), NoteOnEvt 0 (Note 62) 1]"
      "\<lparr>events = [NoteOnEvt 1 (Note 60) 1], target = Some (0::nat)\<rparr>"
      "NoteOffEvt 2 (Note 60)"]
  by (simp add: addEvent_def addEvent_sorts_def Track_new_def events_sorted_def)

section \<open>Track.dispatch delivers the events of the window\<close>

text \<open>
  The binary search finds the first index whose event is at or after \<open>prevTime\<close>: it
  leaves the loop through \<open>break\<close> with \<open>midIdx\<close> at that index when there is one, and
  with \<open>minIdx > maxIdx\<close> when every event is before \<open>prevTime\<close>.
\<close>

declare dispatch_search.simps [simp del]

lemma dispatch_search_none:
  assumes "\<forall>i < length evs. evt_time (evs ! i) < prevT"
    and "0 \<le> minIdx" and "maxIdx < int (length evs)"
  shows "fst (dispatch_search evs prevT minIdx maxIdx midIdx)
           > fst (snd (dispatch_search evs prevT minIdx maxIdx midIdx))"
  using assms
proof (induction evs prevT minIdx maxIdx midIdx rule: dispatch_search.induct)
  case (1 evs prevT minIdx maxIdx midIdx)
  note IH = 1(1) and all = 1(3) and lo = 1(4) and hi = 1(5)
  show ?case
  proof (cases "minIdx \<le> maxIdx")
    case False
    then show ?thesis by (simp add: dispatch_search.simps)
  next
    case True
    define mid where "mid = (minIdx + maxIdx) div 2"
    have mid: "minIdx \<le> mid" "mid \<le> maxIdx" using True by (auto simp: mid_def)
    then have "nat mid < length evs" using lo hi by auto
    then have lt: "evt_time (evs ! nat mid) < prevT" using all by simp
    have "0 \<le> mid + 1" using mid lo by simp
    from IH[OF True mid_def refl refl _ lt all this hi] lt
    have r: "fst (dispatch_search evs prevT (mid + 1) maxIdx mid)
           > fst (snd (dispatch_search evs prevT (mid + 1) maxIdx mid))"
      by simp
    have "dispatch_search evs prevT minIdx maxIdx midIdx
        = dispatch_search evs prevT (mid + 1) maxIdx mid"
      using True lt by (subst dispatch_search.simps) (simp add: Let_def mid_def)
    with r show ?thesis by simp
  qed
qed

lemma dispatch_search_found:
  assumes "sorted (map evt_time evs)"
    and "f < length evs" and "prevT \<le> evt_time (evs ! f)"
    and "\<forall>i < f. evt_time (evs ! i) < prevT"
    and "0 \<le> minIdx" and "maxIdx < int (length evs)"
    and "minIdx \<le> int f" and "int f \<le> maxIdx"
  shows "snd (snd (dispatch_search evs prevT minIdx maxIdx midIdx)) = int f
       \<and> fst (dispatch_search evs prevT minIdx maxIdx midIdx)
           \<le> fst (snd (dispatch_search evs prevT minIdx maxIdx midIdx))"
  using assms
proof (induction evs prevT minIdx maxIdx midIdx rule: dispatch_search.induct)
  case (1 evs prevT minIdx maxIdx midIdx)
  note IH1 = 1(1) and IH2 = 1(2) and srt = 1(3) and flen = 1(4) and fge = 1(5)
    and below = 1(6) and lo = 1(7) and hi = 1(8) and minf = 1(9) and fmax = 1(10)
  have T: "minIdx \<le> maxIdx" using minf fmax by simp
  define mid where "mid = (minIdx + maxIdx) div 2"
  have mid: "minIdx \<le> mid" "mid \<le> maxIdx" "0 \<le> mid" using T lo by (auto simp: mid_def)
  have midlen: "nat mid < length evs" using mid hi by auto
  have mono: "evt_time (evs ! i) \<le> evt_time (evs ! j)" if "i \<le> j" "j < length evs" for i j
    using sorted_nth_mono[OF srt, of i j] that by simp
  consider (lt) "nat mid < f" | (eq) "nat mid = f" | (gt) "f < nat mid" by linarith
  then show ?case
  proof cases
    case lt
    then have l: "evt_time (evs ! nat mid) < prevT" using below by simp
    have a: "0 \<le> mid + 1" "mid + 1 \<le> int f" using mid lt by auto
    from IH1[OF T mid_def refl refl _ l srt flen fge below a(1) hi a(2) fmax] l
    have r: "snd (snd (dispatch_search evs prevT (mid + 1) maxIdx mid)) = int f
       \<and> fst (dispatch_search evs prevT (mid + 1) maxIdx mid)
           \<le> fst (snd (dispatch_search evs prevT (mid + 1) maxIdx mid))"
      by simp
    have "dispatch_search evs prevT minIdx maxIdx midIdx
        = dispatch_search evs prevT (mid + 1) maxIdx mid"
      using T l by (subst dispatch_search.simps) (simp add: Let_def mid_def)
    with r show ?thesis by simp
  next
    case eq
    have left: "mid = 0 \<or> evt_time (evs ! nat (mid - 1)) < prevT"
    proof (cases "mid = 0")
      case False
      then have "nat (mid - 1) < f" using eq mid by auto
      then show ?thesis using below by simp
    qed simp
    have ge: "prevT \<le> evt_time (evs ! nat mid)" using eq fge by simp
    have "dispatch_search evs prevT minIdx maxIdx midIdx = (minIdx, maxIdx, mid)"
      using T left ge by (subst dispatch_search.simps) (auto simp: Let_def mid_def)
    moreover have "mid = int f" using eq mid by auto
    ultimately show ?thesis using T by simp
  next
    case gt
    have ge: "prevT \<le> evt_time (evs ! nat mid)"
      using mono[of f "nat mid"] gt midlen fge by simp
    have m0: "mid \<noteq> 0" using gt by auto
    have "f \<le> nat (mid - 1)" "nat (mid - 1) < length evs" using gt midlen by auto
    then have lge: "prevT \<le> evt_time (evs ! nat (mid - 1))"
      using mono[of f "nat (mid - 1)"] fge by simp
    have nb: "\<not> ((if mid = 0 then True else evt_time (evs ! nat (mid - 1)) < prevT)
                \<and> prevT \<le> evt_time (evs ! nat mid))"
      using m0 lge by simp
    have nl: "\<not> evt_time (evs ! nat mid) < prevT" using ge by simp
    have a: "mid - 1 < int (length evs)" "int f \<le> mid - 1" using midlen gt by auto
    from IH2[OF T mid_def refl refl nb nl srt flen fge below lo a(1) minf a(2)]
    have r: "snd (snd (dispatch_search evs prevT minIdx (mid - 1) mid)) = int f
       \<and> fst (dispatch_search evs prevT minIdx (mid - 1) mid)
           \<le> fst (snd (dispatch_search evs prevT minIdx (mid - 1) mid))" .
    have "dispatch_search evs prevT minIdx maxIdx midIdx
        = dispatch_search evs prevT minIdx (mid - 1) mid"
      using T ge lge m0 by (subst dispatch_search.simps) (simp add: Let_def mid_def)
    with r show ?thesis by simp
  qed
qed


lemma deliver_takeWhile:
  "deliver pe tgt curT evs realT w
     = process_all pe tgt realT (takeWhile (\<lambda>e. evt_time e < curT) evs) w"
  by (induction evs arbitrary: w) (auto split: sum.splits)

lemma sorted_window_filter:
  assumes "sorted (map evt_time evs)"
  shows "filter (in_dispatch_window prevT curT) evs
       = takeWhile (\<lambda>e. evt_time e < curT) (dropWhile (\<lambda>e. evt_time e < prevT) evs)"
  using assms
proof (induction evs)
  case Nil
  then show ?case by simp
next
  case (Cons e evs)
  then have srt: "sorted (map evt_time evs)" and le: "\<forall>x\<in>set evs. evt_time e \<le> evt_time x"
    by auto
  show ?case
  proof (cases "evt_time e < prevT")
    case True
    with Cons.IH[OF srt] show ?thesis by (simp add: in_dispatch_window_def)
  next
    case False
    then have ge: "\<forall>x\<in>set (e # evs). prevT \<le> evt_time x" using le by auto
    have "filter (in_dispatch_window prevT curT) (e # evs)
        = filter (\<lambda>x. evt_time x < curT) (e # evs)"
      using ge by (intro filter_cong) (auto simp: in_dispatch_window_def)
    also have "\<dots> = takeWhile (\<lambda>x. evt_time x < curT) (e # evs)"
    proof (rule sym, rule takeWhile_eq_filter)
      fix x assume x: "x \<in> set (dropWhile (\<lambda>x. evt_time x < curT) (e # evs))"
      have "map evt_time (dropWhile (\<lambda>x. evt_time x < curT) (e # evs))
          = dropWhile (\<lambda>y. y < curT) (map evt_time (e # evs))"
        unfolding dropWhile_map by (simp add: comp_def)
      then have "sorted (map evt_time (dropWhile (\<lambda>x. evt_time x < curT) (e # evs)))"
        using sorted_dropWhile[OF Cons.prems, of "\<lambda>y. y < curT"] by simp
      moreover have "dropWhile (\<lambda>x. evt_time x < curT) (e # evs) \<noteq> []"
        using x by (metis empty_iff list.set(1))
      ultimately have "evt_time (hd (dropWhile (\<lambda>x. evt_time x < curT) (e # evs))) \<le> evt_time x"
        using x by (cases "dropWhile (\<lambda>x. evt_time x < curT) (e # evs)") auto
      moreover have "\<not> evt_time (hd (dropWhile (\<lambda>x. evt_time x < curT) (e # evs))) < curT"
        using hd_dropWhile[OF \<open>dropWhile (\<lambda>x. evt_time x < curT) (e # evs) \<noteq> []\<close>] .
      ultimately show "\<not> evt_time x < curT" by simp
    qed
    finally show ?thesis using False by simp
  qed
qed

lemma Track_dispatch_window:
  assumes srt: "events_sorted tr" and tgt: "target tr = Some tgt"
  shows "Track_dispatch pe tr prevT curT realT w
       = process_all pe tgt realT (window_events tr prevT curT) w"
proof -
  let ?evs = "events tr"
  let ?P = "\<lambda>e. evt_time e < prevT"
  define f where "f = length (takeWhile ?P ?evs)"
  have s: "sorted (map evt_time ?evs)" using srt by (simp add: events_sorted_def)
  have below: "\<forall>i < f. evt_time (?evs ! i) < prevT"
  proof (intro allI impI)
    fix i assume i: "i < f"
    then have "takeWhile ?P ?evs ! i \<in> set (takeWhile ?P ?evs)" by (simp add: f_def)
    then have "?P (takeWhile ?P ?evs ! i)" by (rule set_takeWhileD[THEN conjunct2])
    then show "evt_time (?evs ! i) < prevT" using i by (simp add: f_def takeWhile_nth)
  qed
  have win: "window_events tr prevT curT
       = takeWhile (\<lambda>e. evt_time e < curT) (drop f ?evs)"
    unfolding window_events_def f_def sorted_window_filter[OF s] dropWhile_eq_drop ..
  show ?thesis
  proof (cases "f < length ?evs")
    case True
    then have ne: "length ?evs \<noteq> 0" by auto
    have fge: "prevT \<le> evt_time (?evs ! f)"
      using nth_length_takeWhile[of ?P ?evs] True unfolding f_def by simp
    have "snd (snd (dispatch_search ?evs prevT 0 (int (length ?evs) - 1) 0)) = int f
       \<and> fst (dispatch_search ?evs prevT 0 (int (length ?evs) - 1) 0)
           \<le> fst (snd (dispatch_search ?evs prevT 0 (int (length ?evs) - 1) 0))"
    proof (rule dispatch_search_found[OF s True fge below])
      show "(0::int) \<le> 0" by simp
      show "int (length ?evs) - 1 < int (length ?evs)" by simp
      show "0 \<le> int f" by simp
      show "int f \<le> int (length ?evs) - 1" using True by linarith
    qed
    then obtain mn mx where
      r: "dispatch_search ?evs prevT 0 (int (length ?evs) - 1) 0 = (mn, mx, int f)" and
      le: "mn \<le> mx"
      by (cases "dispatch_search ?evs prevT 0 (int (length ?evs) - 1) 0") auto
    show ?thesis
      using tgt ne r le win by (simp add: Track_dispatch_def deliver_takeWhile)
  next
    case False
    then have fl: "f = length ?evs" unfolding f_def using length_takeWhile_le[of ?P ?evs] by simp
    then have w0: "window_events tr prevT curT = []" using win by simp
    show ?thesis
    proof (cases "length ?evs = 0")
      case True
      then show ?thesis using tgt w0 by (simp add: Track_dispatch_def)
    next
      case ne: False
      have all: "\<forall>i < length ?evs. evt_time (?evs ! i) < prevT" using below fl by simp
      have "fst (dispatch_search ?evs prevT 0 (int (length ?evs) - 1) 0)
           > fst (snd (dispatch_search ?evs prevT 0 (int (length ?evs) - 1) 0))"
      proof (rule dispatch_search_none[OF all])
        show "(0::int) \<le> 0" by simp
        show "int (length ?evs) - 1 < int (length ?evs)" by simp
      qed
      then obtain mn mx md where
        r: "dispatch_search ?evs prevT 0 (int (length ?evs) - 1) 0 = (mn, mx, md)" and
        gt: "mn > mx"
        by (cases "dispatch_search ?evs prevT 0 (int (length ?evs) - 1) 0") auto
      show ?thesis using tgt ne r gt w0 by (simp add: Track_dispatch_def)
    qed
  qed
qed

lemma window_events_sorted:
  "events_sorted tr \<Longrightarrow> sorted (map evt_time (window_events tr prevT curT))"
  by (simp add: events_sorted_def window_events_def sorted_filter)


lemma process_all_log:
  "process_all log_event tgt realT evs calls
     = Inr (calls @ map (\<lambda>e. (tgt, e, realT)) evs)"
  by (induction evs arbitrary: calls) (simp_all add: log_event_def)

text \<open>
  Claim C2.  For a track whose events are sorted ascending by time and whose target is
  defined, \<open>Track.dispatch(prevTime, curTime, realTime)\<close> is the sequence of calls
  \<open>processEvent(evt, realTime)\<close> on the target for exactly the events whose time lies in
  \<open>[prevTime, curTime)\<close>, in the order of the array, which is ascending time order.  On a
  target that records its calls, the record is that list of events, each with \<open>realTime\<close>.
\<close>

theorem Track_dispatch_delivers_window:
  assumes "events_sorted tr" and "target tr = Some tgt"
  shows "Track_dispatch pe tr prevT curT realT w
           = process_all pe tgt realT (window_events tr prevT curT) w
       \<and> Track_dispatch log_event tr prevT curT realT []
           = Inr (map (\<lambda>e. (tgt, e, realT)) (window_events tr prevT curT))
       \<and> window_events tr prevT curT
           = filter (\<lambda>e. prevT \<le> evt_time e \<and> evt_time e < curT) (events tr)
       \<and> sorted (map evt_time (window_events tr prevT curT))"
proof -
  have "Track_dispatch log_event tr prevT curT realT []
           = Inr (map (\<lambda>e. (tgt, e, realT)) (window_events tr prevT curT))"
    using Track_dispatch_window[OF assms, of log_event prevT curT realT "[]"]
    by (simp add: process_all_log)
  moreover have "window_events tr prevT curT
           = filter (\<lambda>e. prevT \<le> evt_time e \<and> evt_time e < curT) (events tr)"
    by (simp add: window_events_def in_dispatch_window_def[abs_def])
  ultimately show ?thesis
    using Track_dispatch_window[OF assms, of pe prevT curT realT w]
      window_events_sorted[OF assms(1), of prevT curT]
    by blast
qed

text \<open>
  The witness: events at times 0.0, 0.5 and 1.0 and the window from 0.4 to 0.9; exactly
  the event at 0.5 is delivered.
\<close>

theorem Track_dispatch_delivers_window_witness:
  "events_sorted \<lparr>events = [NoteOnEvt 0 (Note 60) 1, NoteOffEvt (1/2) (Note 60),
       NoteOnEvt 1 (Note 62) 1], target = Some (3::nat)\<rparr>
   \<and> Track_dispatch log_event
        \<lparr>events = [NoteOnEvt 0 (Note 60) 1, NoteOffEvt (1/2) (Note 60),
           NoteOnEvt 1 (Note 62) 1], target = Some (3::nat)\<rparr> (2/5) (9/10) 7 []
       = Inr [(3, NoteOffEvt (1/2) (Note 60), 7)]"
proof -
  have s: "events_sorted \<lparr>events = [NoteOnEvt 0 (Note 60) 1, NoteOffEvt (1/2) (Note 60),
       NoteOnEvt 1 (Note 62) 1], target = Some (3::nat)\<rparr>"
    by (simp add: events_sorted_def)
  have t: "target \<lparr>events = [NoteOnEvt 0 (Note 60) 1, NoteOffEvt (1/2) (Note 60),
       NoteOnEvt 1 (Note 62) 1], target = Some (3::nat)\<rparr> = Some 3"
    by simp
  from Track_dispatch_delivers_window[OF s t, of log_event "2/5" "9/10" 7 "[]"]
  have "Track_dispatch log_event
        \<lparr>events = [NoteOnEvt 0 (Note 60) 1, NoteOffEvt (1/2) (Note 60),
           NoteOnEvt 1 (Note 62) 1], target = Some (3::nat)\<rparr> (2/5) (9/10) 7 []
       = Inr [(3, NoteOffEvt (1/2) (Note 60), 7)]"
    by (simp add: window_events_def in_dispatch_window_def log_event_def)
  with s show ?thesis by blast
qed

section \<open>Note.nameToNo and the MIDI range\<close>

lemma match_note_groups:
  "match_note cs = Some (namePart, numPart) \<Longrightarrow> isDigit numPart"
proof (induction cs rule: match_note.induct)
  case 1
  then show ?case by simp
next
  case (2 c cs)
  then show ?case
    by (auto split: if_splits list.splits)
qed

lemma parseInt_digit_range: "isDigit c \<Longrightarrow> 0 \<le> parseInt_digit c \<and> parseInt_digit c \<le> 9"
  by (auto simp: isDigit_def parseInt_digit_def)

lemma NOTE_NAME_PC_range: "NOTE_NAME_PC n = Some pc \<Longrightarrow> 0 \<le> pc \<and> pc \<le> 11"
  by (auto simp: NOTE_NAME_PC_def split: if_splits)

lemma nameToNo_bounds:
  assumes "nameToNo name = Inr n"
  shows "12 \<le> n \<and> n \<le> 131"
proof -
  from assms obtain namePart numPart pc where
    m: "match_note name = Some (namePart, numPart)" and
    pc: "NOTE_NAME_PC namePart = Some pc" and
    n: "n = (parseInt_digit numPart + 1) * NOTES_PER_OCTAVE + pc"
    by (auto simp: nameToNo_def Let_def split: option.splits if_splits)
  from m have "isDigit numPart" by (rule match_note_groups)
  then have "0 \<le> parseInt_digit numPart \<and> parseInt_digit numPart \<le> 9"
    by (rule parseInt_digit_range)
  with NOTE_NAME_PC_range[OF pc] n show ?thesis
    by (simp add: NOTES_PER_OCTAVE_def)
qed

text \<open>
  Claim C8 (the code departs from it).  The name \<open>G#9\<close> is accepted by the parser, the
  assertion written with \<open>||\<close> lets it pass, and \<open>nameToNo\<close> returns 128, which is not a
  MIDI note number; \<open>B9\<close> gives 131.  No result of \<open>nameToNo\<close> ever takes the failure
  branch of the range assertion.
\<close>

theorem nameToNo_out_of_midi_range:
  "nameToNo ''G#9'' = Inr 128 \<and> \<not> midi_range 128
   \<and> nameToNo ''B9'' = Inr 131 \<and> \<not> midi_range 131
   \<and> nameToNo ''G9'' = Inr 127 \<and> midi_range 127"
  by (simp add: nameToNo_def NOTE_NAME_PC_def isNoteLetter_def isDigit_def
      parseInt_digit_def NOTES_PER_OCTAVE_def NUM_NOTES_def midi_range_def)

lemma nameToNo_range_assertion_never_fails:
  "nameToNo name \<noteq> Inl (Thrown ''note parsing failed'')"
proof
  assume a: "nameToNo name = Inl (Thrown ''note parsing failed'')"
  show False
  proof (cases "match_note name")
    case None
    with a show False by (simp add: nameToNo_def)
  next
    case (Some p)
    obtain namePart numPart where p: "p = (namePart, numPart)" by (cases p)
    show False
    proof (cases "NOTE_NAME_PC namePart")
      case None
      with a Some p show False by (simp add: nameToNo_def)
    next
      case (Some pc)
      have "isDigit numPart" using \<open>match_note name = Some p\<close> p match_note_groups by simp
      then have "0 \<le> parseInt_digit numPart" using parseInt_digit_range by simp
      moreover have "0 \<le> pc" using NOTE_NAME_PC_range[OF Some] by simp
      ultimately have "(parseInt_digit numPart + 1) * NOTES_PER_OCTAVE + pc \<ge> 0"
        by (simp add: NOTES_PER_OCTAVE_def)
      with a Some p \<open>match_note name = Some p\<close> show False
        by (simp add: nameToNo_def Let_def)
    qed
  qed
qed

section \<open>The envelope against its reference definition\<close>

lemma interp_is_interp_spec: "interp x yL yR e = interp_spec x e yL yR"
  by (simp add: interp_def interp_spec_def)

text \<open>
  Claim C1, the counterexample.  The source tests only the upper bound of each window.
  With the constructor's exponents, release time 1 and a release that started at time 1
  from amplitude 1/2, the envelope read at time 0 is 2, where the reference definition
  gives 0; with an attack of 1 starting at time 1 from amplitude 0, the envelope read at
  time 0 is 1, where the reference definition gives the sustain level 1/2.
\<close>

theorem getValue_before_window_counterexample:
  "getValue (ADSREnv_new (Finite 1) (Finite 1) (1/2) (Finite 1)) 0 0 1 0 (1/2) = 2
   \<and> getValue_spec (ADSREnv_new (Finite 1) (Finite 1) (1/2) (Finite 1)) 0 0 1 0 (1/2) = 0
   \<and> getValue (ADSREnv_new (Finite 1) (Finite 1) (1/2) (Finite 1)) 0 1 0 0 0 = 1
   \<and> getValue_spec (ADSREnv_new (Finite 1) (Finite 1) (1/2) (Finite 1)) 0 1 0 0 0 = 1/2"
  by (simp add: getValue_def getValue_spec_def ADSREnv_new_def interp_def interp_spec_def
      Math_pow_def in_window_def)

text \<open>
  Claim C1, as amended.  When the envelope is read at or after the time its current
  segment started (at or after \<open>onTime\<close> while the note is held, at or after \<open>offTime\<close>
  once it is released), \<open>getValue\<close> equals the reference definition.
\<close>

theorem getValue_refines_spec:
  assumes "offT = 0 \<Longrightarrow> onT \<le> curTime"
    and "offT \<noteq> 0 \<Longrightarrow> offT \<le> curTime"
  shows "getValue env curTime onT offT onA offA
         = getValue_spec env curTime onT offT onA offA"
proof (cases "offT = 0")
  case True
  with assms(1) have nn: "0 \<le> curTime - onT" by simp
  show ?thesis
  proof (cases "env_a env")
    case (Finite a)
    with True nn show ?thesis
      by (simp add: getValue_def getValue_spec_def Let_def in_window_def interp_is_interp_spec)
  next
    case Infinity
    with True nn show ?thesis
      by (simp add: getValue_def getValue_spec_def Let_def in_window_def interp_is_interp_spec)
  qed
next
  case False
  with assms(2) have "0 \<le> curTime - offT" by simp
  with False show ?thesis
    by (simp add: getValue_def getValue_spec_def Let_def in_window_def interp_is_interp_spec)
qed

theorem getValue_refines_spec_witness:
  "getValue (ADSREnv_new (Finite (1/20)) (Finite (1/20)) (1/5) (Finite (1/10))) (1/40) 0 0 0 0
     = getValue_spec (ADSREnv_new (Finite (1/20)) (Finite (1/20)) (1/5) (Finite (1/10))) (1/40) 0 0 0 0
   \<and> getValue (ADSREnv_new (Finite (1/20)) (Finite (1/20)) (1/5) (Finite (1/10))) (1/40) 0 0 0 0 = 1/4
   \<and> getValue (ADSREnv_new (Finite (1/20)) (Finite (1/20)) (1/5) (Finite (1/10))) (101/100) 0 1 0 (2/5)
     = getValue_spec (ADSREnv_new (Finite (1/20)) (Finite (1/20)) (1/5) (Finite (1/10))) (101/100) 0 1 0 (2/5)
   \<and> getValue (ADSREnv_new (Finite (1/20)) (Finite (1/20)) (1/5) (Finite (1/10))) (101/100) 0 1 0 (2/5) = 81/250"
proof -
  have 1: "getValue (ADSREnv_new (Finite (1/20)) (Finite (1/20)) (1/5) (Finite (1/10))) (1/40) 0 0 0 0
     = getValue_spec (ADSREnv_new (Finite (1/20)) (Finite (1/20)) (1/5) (Finite (1/10))) (1/40) 0 0 0 0"
    by (rule getValue_refines_spec) simp_all
  have 2: "getValue (ADSREnv_new (Finite (1/20)) (Finite (1/20)) (1/5) (Finite (1/10))) (101/100) 0 1 0 (2/5)
     = getValue_spec (ADSREnv_new (Finite (1/20)) (Finite (1/20)) (1/5) (Finite (1/10))) (101/100) 0 1 0 (2/5)"
    by (rule getValue_refines_spec) simp_all
  have 3: "getValue (ADSREnv_new (Finite (1/20)) (Finite (1/20)) (1/5) (Finite (1/10))) (1/40) 0 0 0 0 = 1/4"
    by (simp add: getValue_def ADSREnv_new_def interp_def Math_pow_def power2_eq_square)
  have 4: "getValue (ADSREnv_new (Finite (1/20)) (Finite (1/20)) (1/5) (Finite (1/10))) (101/100) 0 1 0 (2/5) = 81/250"
    by (simp add: getValue_def ADSREnv_new_def interp_def Math_pow_def power2_eq_square)
  from 1 2 3 4 show ?thesis by blast
qed

section \<open>Reading an input port without data\<close>

lemma SYNTH_ZERO_BUF_zero: "length SYNTH_ZERO_BUF = 256 \<and> set SYNTH_ZERO_BUF = {0}"
  by (simp add: SYNTH_ZERO_BUF_def SYNTH_BUF_SIZE_def)

text \<open>
  Claim C6, the counterexample.  The first statement of \<open>SynthInput.getBuffer\<close> asserts
  that the port is connected: on a fresh, unconnected input port it throws, it does not
  return the zero buffer.  \<open>SynthInput.hasData\<close> is the method that answers \<open>false\<close> for
  such a port.
\<close>

theorem getBuffer_unconnected_counterexample:
  "SynthInput_getBuffer heap_new (SynthInput_new 0 ''input'' None) (Some 0)
     = Inl (Thrown ''synth input not connected to any output'')
   \<and> SynthInput_hasData heap_new (SynthInput_new 0 ''input'' None) = False"
  by (simp add: SynthInput_getBuffer_def SynthInput_hasData_def SynthInput_new_def)

text \<open>
  Claim C6, as amended.  For an input port connected to a source whose \<open>hasData\<close> flag is
  false, \<open>getBuffer\<close> returns the constant all-zero buffer of 256 samples whenever its two
  channel assertions hold.  For an input port with no connected source, \<open>getBuffer\<close> throws
  'synth input not connected to any output', and \<open>hasData()\<close> returns false without
  throwing.
\<close>

theorem getBuffer_no_data:
  "(src inp = Some s \<and> hasData (outputs h s) = False
      \<and> chanIdx_asserts inp (outputs h s) chanIdx
     \<longrightarrow> SynthInput_getBuffer h inp chanIdx = Inr (Some SYNTH_ZERO_BUF)
         \<and> length SYNTH_ZERO_BUF = 256 \<and> set SYNTH_ZERO_BUF = {0}
         \<and> SynthInput_hasData h inp = False)
   \<and> (src inp = None
     \<longrightarrow> SynthInput_getBuffer h inp chanIdx
           = Inl (Thrown ''synth input not connected to any output'')
         \<and> SynthInput_hasData h inp = False)"
  using SYNTH_ZERO_BUF_zero
  by (auto simp: SynthInput_getBuffer_def SynthInput_hasData_def chanIdx_asserts_def Let_def)

text \<open>
  The witness: the input of an effect node (no channel count) connected to a fresh mono
  output, read without a channel index as \<open>Overdrive.update\<close> does; and a fresh input.
\<close>

theorem getBuffer_no_data_witness:
  "SynthInput_getBuffer heap_new
      (SynthInput_new 0 ''input'' None\<lparr>src := Some 0\<rparr>) None = Inr (Some SYNTH_ZERO_BUF)
   \<and> SynthInput_getBuffer heap_new (SynthInput_new 0 ''input'' None) None
      = Inl (Thrown ''synth input not connected to any output'')"
  using getBuffer_no_data[of "SynthInput_new 0 ''input'' None\<lparr>src := Some 0\<rparr>" 0 heap_new None]
    getBuffer_no_data[of "SynthInput_new 0 ''input'' None" 0 heap_new None]
  by (simp add: SynthInput_new_def heap_new_def SynthOutput_new_def chanIdx_asserts_def)

section \<open>orderNodes computes a topological order or reports a cycle\<close>

lemma wf_net_distinct: "wf_net h net \<Longrightarrow> distinct (net_nodes net)"
  by (simp add: wf_net_def)

lemma wf_net_node:
  assumes "wf_net h net" and "n \<in> set (net_nodes net)"
  shows "distinct (node_ins h n)" and "distinct (node_outs h n)"
    and "\<And>i. i \<in> set (node_ins h n) \<Longrightarrow> in_node (inputs h i) = n"
  using assms by (auto simp: wf_net_def list_all_iff)

lemma wf_net_out:
  assumes "wf_net h net" and "n \<in> set (net_nodes net)" and "out \<in> set (node_outs h n)"
  shows "out_node (outputs h out) = n" and "distinct (dsts (outputs h out))"
    and "\<And>i. i \<in> set (dsts (outputs h out)) \<Longrightarrow>
           src (inputs h i) = Some out \<and> in_node (inputs h i) \<in> set (net_nodes net)
           \<and> i \<in> set (node_ins h (in_node (inputs h i)))"
  using assms by (auto simp: wf_net_def list_all_iff)

lemma wf_net_in:
  assumes "wf_net h net" and "n \<in> set (net_nodes net)" and "i \<in> set (node_ins h n)"
    and "src (inputs h i) = Some out"
  shows "i \<in> set (dsts (outputs h out))" and "out_node (outputs h out) \<in> set (net_nodes net)"
    and "out \<in> set (node_outs h (out_node (outputs h out)))"
  using assms by (auto simp: wf_net_def list_all_iff split: option.splits)

lemma pending_other:
  assumes "i \<notin> set (node_ins h n')"
  shows "pending h (insert i X) n' = pending h X n'"
proof -
  have "filter (\<lambda>j. src (inputs h j) \<noteq> None \<and> j \<notin> insert i X) (node_ins h n')
      = filter (\<lambda>j. src (inputs h j) \<noteq> None \<and> j \<notin> X) (node_ins h n')"
    using assms by (intro filter_cong) auto
  then show ?thesis by (simp add: pending_def)
qed

lemma mset_filter_remove:
  assumes "distinct xs" and "i \<in> set xs" and "P i"
  shows "mset (filter (\<lambda>x. P x \<and> x \<noteq> i) xs) = mset (filter P xs) - {#i#}"
  using assms
proof (induction xs)
  case Nil
  then show ?case by simp
next
  case (Cons x xs)
  show ?case
  proof (cases "x = i")
    case True
    with Cons.prems have "i \<notin> set xs" by simp
    then have "filter (\<lambda>x. P x \<and> x \<noteq> i) xs = filter P xs"
      by (intro filter_cong) auto
    with True Cons.prems show ?thesis by simp
  next
    case False
    with Cons.prems have d: "distinct xs" and m: "i \<in> set xs" by simp_all
    have "i \<in># mset (filter P xs)" using m Cons.prems(3) by simp
    with Cons.IH[OF d m Cons.prems(3)] False show ?thesis by simp
  qed
qed

lemma pending_this:
  assumes d: "distinct (node_ins h n)" and i: "i \<in> set (node_ins h n)" and x: "i \<notin> X"
    and s: "src (inputs h i) = Some out"
  shows "mset (pending h (insert i X) n) = mset (pending h X n) - {#out#}"
    and "out \<in> set (pending h X n)"
proof -
  let ?P = "\<lambda>j. src (inputs h j) \<noteq> None \<and> j \<notin> X"
  let ?f = "\<lambda>i. the (src (inputs h i))"
  have P: "?P i" using x s by simp
  have e: "filter (\<lambda>j. src (inputs h j) \<noteq> None \<and> j \<notin> insert i X) (node_ins h n)
      = filter (\<lambda>j. ?P j \<and> j \<noteq> i) (node_ins h n)"
    by (intro filter_cong) auto
  have m: "i \<in># mset (filter ?P (node_ins h n))" using i P by simp
  have "mset (pending h (insert i X) n)
      = image_mset ?f (mset (filter ?P (node_ins h n)) - {#i#})"
    unfolding pending_def e using mset_filter_remove[OF d i, of ?P] P by simp
  also have "\<dots> = image_mset ?f (mset (filter ?P (node_ins h n))) - image_mset ?f {#i#}"
    using m by (intro image_mset_Diff) simp
  also have "\<dots> = mset (pending h X n) - {#out#}"
    using s by (simp add: pending_def)
  finally show "mset (pending h (insert i X) n) = mset (pending h X n) - {#out#}" .
  show "out \<in> set (pending h X n)"
    unfolding pending_def using i P s by force
qed


lemma sum_pending_step:
  assumes d: "distinct ns" and n: "n \<in> set ns"
    and o: "\<And>n'. n' \<in> set ns \<Longrightarrow> n' \<noteq> n \<Longrightarrow> f' n' = f n'"
    and t: "f' n = f n - 1"
  shows "(\<Sum>x\<leftarrow>ns. (f' x :: int)) = (\<Sum>x\<leftarrow>ns. f x) - 1"
proof -
  have "(\<Sum>x\<leftarrow>ns. f' x) = sum f' (set ns)" using d by (rule sum_list_distinct_conv_sum_set)
  also have "\<dots> = f' n + sum f' (set ns - {n})" using n by (simp add: sum.remove)
  also have "sum f' (set ns - {n}) = sum f (set ns - {n})"
    by (rule sum.cong) (use o in auto)
  also have "f' n + sum f (set ns - {n}) = (f n + sum f (set ns - {n})) - 1" using t by simp
  also have "f n + sum f (set ns - {n}) = sum f (set ns)" using n by (simp add: sum.remove)
  also have "\<dots> = (\<Sum>x\<leftarrow>ns. f x)" using d by (rule sum_list_distinct_conv_sum_set[symmetric])
  finally show ?thesis .
qed

lemma remove_step:
  assumes wf: "wf_net h0 net"
    and inv: "order_inv h0 net L X (h, S, numEdges)"
    and s: "src (inputs h0 i) = Some out"
    and n: "in_node (inputs h0 i) = n" "n \<in> set (net_nodes net)" "i \<in> set (node_ins h0 n)"
    and x: "i \<notin> X"
  shows "\<exists>es. inEdges (nodes h n) = Some es \<and> out \<in> set es
           \<and> order_inv h0 net L (insert i X)
                (h\<lparr>nodes := (nodes h)(n := (nodes h n)\<lparr>inEdges := Some (remove1 out es)\<rparr>)\<rparr>,
                 if length (remove1 out es) = 0 then S @ [n] else S, numEdges - 1)"
proof -
  let ?N = "set (net_nodes net)"
  from inv have sg: "same_graph h h0"
    and ie: "\<forall>n\<in>?N. \<exists>es. inEdges (nodes h n) = Some es \<and> mset es = mset (pending h0 X n)"
    and ne: "numEdges = (\<Sum>n\<leftarrow>net_nodes net. int (length (pending h0 X n)))"
    and ds: "distinct (S @ L)" and ss: "set S \<subseteq> ?N"
    and em: "\<forall>n\<in>?N. pending h0 X n = [] \<longleftrightarrow> n \<in> set S \<union> set L"
    by (simp_all add: order_inv_def)
  from ie n(2) obtain es where es: "inEdges (nodes h n) = Some es"
    and mes: "mset es = mset (pending h0 X n)" by blast
  have dn: "distinct (node_ins h0 n)" using wf_net_node(1)[OF wf n(2)] .
  note pt = pending_this[OF dn n(3) x s]
  have oin: "out \<in> set es" using pt(2) mes by (metis set_mset_mset)
  have other: "pending h0 (insert i X) n' = pending h0 X n'" if "n' \<in> ?N" "n' \<noteq> n" for n'
  proof (rule pending_other)
    show "i \<notin> set (node_ins h0 n')"
      using wf_net_node(3)[OF wf that(1), of i] n(1) that(2) by auto
  qed
  let ?es' = "remove1 out es"
  let ?h' = "h\<lparr>nodes := (nodes h)(n := (nodes h n)\<lparr>inEdges := Some ?es'\<rparr>)\<rparr>"
  let ?S' = "if length ?es' = 0 then S @ [n] else S"
  have mes': "mset ?es' = mset (pending h0 (insert i X) n)"
    using mes pt(1) by simp
  have len: "int (length (pending h0 (insert i X) n)) = int (length (pending h0 X n)) - 1"
  proof -
    have "size (mset (pending h0 (insert i X) n)) = size (mset (pending h0 X n)) - 1"
      using pt by (simp add: size_Diff_singleton)
    moreover have "0 < length (pending h0 X n)" using pt(2) by (cases "pending h0 X n") auto
    ultimately have "length (pending h0 (insert i X) n) + 1 = length (pending h0 X n)"
      by simp
    then show ?thesis by linarith
  qed
  have nonempty: "pending h0 X n \<noteq> []" using pt(2) by auto
  have nS: "n \<notin> set S \<union> set L" using em n(2) nonempty by blast
  have empty_iff: "pending h0 (insert i X) n = [] \<longleftrightarrow> length ?es' = 0"
    using mes' by (metis length_0_conv mset_zero_iff)
  have 1: "same_graph ?h' h0" using sg by (simp add: same_graph_def)
  have 2: "\<forall>n'\<in>?N. \<exists>es. inEdges (nodes ?h' n') = Some es
              \<and> mset es = mset (pending h0 (insert i X) n')"
  proof
    fix n' assume n': "n' \<in> ?N"
    show "\<exists>es. inEdges (nodes ?h' n') = Some es \<and> mset es = mset (pending h0 (insert i X) n')"
    proof (cases "n' = n")
      case True
      then show ?thesis using mes' by simp
    next
      case False
      with ie n' other[OF n' False] show ?thesis by simp
    qed
  qed
  have 3: "numEdges - 1 = (\<Sum>n\<leftarrow>net_nodes net. int (length (pending h0 (insert i X) n)))"
    unfolding ne
    by (rule sum_pending_step[OF wf_net_distinct[OF wf] n(2), symmetric])
      (use other len in auto)
  have 4: "distinct (?S' @ L)" using ds nS by auto
  have 5: "set ?S' \<subseteq> ?N" using ss n(2) by auto
  have 6: "\<forall>n'\<in>?N. pending h0 (insert i X) n' = [] \<longleftrightarrow> n' \<in> set ?S' \<union> set L"
  proof
    fix n' assume n': "n' \<in> ?N"
    show "pending h0 (insert i X) n' = [] \<longleftrightarrow> n' \<in> set ?S' \<union> set L"
    proof (cases "n' = n")
      case True
      then show ?thesis using empty_iff nS by auto
    next
      case False
      with em n' other[OF n' False] show ?thesis by auto
    qed
  qed
  have "order_inv h0 net L (insert i X) (?h', ?S', numEdges - 1)"
    unfolding order_inv_def using 1 2 3 4 5 6 by simp
  with es oin show ?thesis by blast
qed


lemma remove_edges_ok:
  assumes wf: "wf_net h0 net"
    and inv: "order_inv h0 net L X (h, S, numEdges)"
    and d: "distinct ds"
    and e: "\<forall>i\<in>set ds. src (inputs h0 i) = Some out
              \<and> in_node (inputs h0 i) \<in> set (net_nodes net)
              \<and> i \<in> set (node_ins h0 (in_node (inputs h0 i))) \<and> i \<notin> X"
  shows "\<exists>st'. remove_edges out ds (h, S, numEdges) = (None, st')
           \<and> order_inv h0 net L (X \<union> set ds) st'"
  using inv d e
proof (induction ds arbitrary: h S numEdges X)
  case Nil
  then show ?case by simp
next
  case (Cons i ds)
  let ?n = "in_node (inputs h0 i)"
  from Cons.prems(1) have sg: "inputs h = inputs h0" by (simp add: order_inv_def same_graph_def)
  from Cons.prems(3) have s: "src (inputs h0 i) = Some out" and n: "?n \<in> set (net_nodes net)"
    and ii: "i \<in> set (node_ins h0 ?n)" and x: "i \<notin> X" by simp_all
  from remove_step[OF wf Cons.prems(1) s refl n ii x] obtain es where
    es: "inEdges (nodes h ?n) = Some es" and oin: "out \<in> set es"
    and inv': "order_inv h0 net L (insert i X)
                (h\<lparr>nodes := (nodes h)(?n := (nodes h ?n)\<lparr>inEdges := Some (remove1 out es)\<rparr>)\<rparr>,
                 if length (remove1 out es) = 0 then S @ [?n] else S, numEdges - 1)"
    by blast
  have d': "distinct ds" using Cons.prems(2) by simp
  have e': "\<forall>j\<in>set ds. src (inputs h0 j) = Some out
              \<and> in_node (inputs h0 j) \<in> set (net_nodes net)
              \<and> j \<in> set (node_ins h0 (in_node (inputs h0 j))) \<and> j \<notin> insert i X"
    using Cons.prems(2,3) by auto
  from Cons.IH[OF inv' d' e'] obtain st' where
    r: "remove_edges out ds
          (h\<lparr>nodes := (nodes h)(?n := (nodes h ?n)\<lparr>inEdges := Some (remove1 out es)\<rparr>)\<rparr>,
           if length (remove1 out es) = 0 then S @ [?n] else S, numEdges - 1) = (None, st')"
    and i': "order_inv h0 net L (insert i X \<union> set ds) st'" by blast
  have "remove_edges out (i # ds) (h, S, numEdges) = (None, st')"
    using es oin r sg by (simp add: Let_def)
  moreover have "insert i X \<union> set ds = X \<union> set (i # ds)" by auto
  ultimately show ?case using i' by auto
qed

lemma process_outputs_ok:
  assumes wf: "wf_net h0 net"
    and inv: "order_inv h0 net L X (h, S, numEdges)"
    and d: "distinct (out_ports ps)"
    and e: "\<forall>out\<in>set (out_ports ps). distinct (dsts (outputs h0 out))
              \<and> (\<forall>i\<in>set (dsts (outputs h0 out)). src (inputs h0 i) = Some out
                    \<and> in_node (inputs h0 i) \<in> set (net_nodes net)
                    \<and> i \<in> set (node_ins h0 (in_node (inputs h0 i))) \<and> i \<notin> X)"
  shows "\<exists>st'. process_outputs ps (h, S, numEdges) = (None, st')
           \<and> order_inv h0 net L
                (X \<union> (\<Union>out\<in>set (out_ports ps). set (dsts (outputs h0 out)))) st'"
  using inv d e
proof (induction ps arbitrary: h S numEdges X)
  case Nil
  then show ?case by simp
next
  case (Cons p ps)
  show ?case
  proof (cases p)
    case (InPort i)
    with Cons.IH[OF Cons.prems(1)] Cons.prems(2,3) show ?thesis by simp
  next
    case (OutPort out)
    from Cons.prems(1) have sg: "outputs h = outputs h0"
      by (simp add: order_inv_def same_graph_def)
    let ?ds = "dsts (outputs h0 out)"
    from Cons.prems(3) OutPort have dd: "distinct ?ds"
      and ee: "\<forall>i\<in>set ?ds. src (inputs h0 i) = Some out
                    \<and> in_node (inputs h0 i) \<in> set (net_nodes net)
                    \<and> i \<in> set (node_ins h0 (in_node (inputs h0 i))) \<and> i \<notin> X"
      by simp_all
    from remove_edges_ok[OF wf Cons.prems(1) dd ee] obtain st1 where
      r: "remove_edges out ?ds (h, S, numEdges) = (None, st1)"
      and i1: "order_inv h0 net L (X \<union> set ?ds) st1" by blast
    obtain h1 S1 n1 where st1: "st1 = (h1, S1, n1)" by (cases st1) auto
    have d': "distinct (out_ports ps)" and notin: "out \<notin> set (out_ports ps)"
      using Cons.prems(2) OutPort by simp_all
    have e': "\<forall>out'\<in>set (out_ports ps). distinct (dsts (outputs h0 out'))
              \<and> (\<forall>i\<in>set (dsts (outputs h0 out')). src (inputs h0 i) = Some out'
                    \<and> in_node (inputs h0 i) \<in> set (net_nodes net)
                    \<and> i \<in> set (node_ins h0 (in_node (inputs h0 i))) \<and> i \<notin> X \<union> set ?ds)"
    proof (intro ballI conjI)
      fix out' i assume o': "out' \<in> set (out_ports ps)" and i: "i \<in> set (dsts (outputs h0 out'))"
      from Cons.prems(3) o' OutPort i have a: "src (inputs h0 i) = Some out'"
        and b: "in_node (inputs h0 i) \<in> set (net_nodes net)"
        and c: "i \<in> set (node_ins h0 (in_node (inputs h0 i)))" and x: "i \<notin> X"
        by simp_all
      show "src (inputs h0 i) = Some out'" by (rule a)
      show "in_node (inputs h0 i) \<in> set (net_nodes net)" by (rule b)
      show "i \<in> set (node_ins h0 (in_node (inputs h0 i)))" by (rule c)
      show "i \<notin> X \<union> set ?ds"
      proof
        assume "i \<in> X \<union> set ?ds"
        with x have "i \<in> set ?ds" by simp
        with ee have "src (inputs h0 i) = Some out" by simp
        with a have "out' = out" by simp
        with o' notin show False by simp
      qed
    next
      fix out' assume "out' \<in> set (out_ports ps)"
      with Cons.prems(3) OutPort show "distinct (dsts (outputs h0 out'))" by simp
    qed
    from Cons.IH[OF i1[unfolded st1] d' e'] obtain st' where
      r2: "process_outputs ps (h1, S1, n1) = (None, st')"
      and i2: "order_inv h0 net L
            (X \<union> set ?ds \<union> (\<Union>out\<in>set (out_ports ps). set (dsts (outputs h0 out)))) st'"
      by blast
    have "process_outputs (p # ps) (h, S, numEdges) = (None, st')"
      using OutPort r st1 r2 sg by simp
    moreover have "X \<union> set ?ds \<union> (\<Union>out\<in>set (out_ports ps). set (dsts (outputs h0 out)))
        = X \<union> (\<Union>out\<in>set (out_ports (p # ps)). set (dsts (outputs h0 out)))"
      using OutPort by auto
    ultimately show ?thesis using i2 by auto
  qed
qed


lemma feeds_iff:
  "feeds h m n \<longleftrightarrow> (\<exists>i\<in>set (node_ins h n). \<exists>out\<in>set (node_outs h m). src (inputs h i) = Some out)"
  by (simp add: feeds_def list_ex_iff)

lemma fed_inputs_owner:
  assumes wf: "wf_net h0 net" and L: "set L \<subseteq> set (net_nodes net)"
    and i: "i \<in> fed_inputs h0 L" and s: "src (inputs h0 i) = Some out"
    and m: "m \<in> set (net_nodes net)" and o: "out \<in> set (node_outs h0 m)"
  shows "m \<in> set L"
proof -
  from i obtain m' out' where m': "m' \<in> set L" and o': "out' \<in> set (node_outs h0 m')"
    and d: "i \<in> set (dsts (outputs h0 out'))"
    by (auto simp: fed_inputs_def)
  from m' L have m'N: "m' \<in> set (net_nodes net)" by auto
  from wf_net_out(3)[OF wf m'N o' d] s have "out' = out" by simp
  with wf_net_out(1)[OF wf m'N o'] wf_net_out(1)[OF wf m o] have "m' = m" by simp
  with m' show ?thesis by simp
qed

lemma pending_empty_feeders:
  assumes wf: "wf_net h0 net" and L: "set L \<subseteq> set (net_nodes net)"
    and p: "pending h0 (fed_inputs h0 L) n = []"
    and m: "m \<in> set (net_nodes net)" and f: "feeds h0 m n"
  shows "m \<in> set L"
proof -
  from f obtain i out where i: "i \<in> set (node_ins h0 n)" and o: "out \<in> set (node_outs h0 m)"
    and s: "src (inputs h0 i) = Some out" by (auto simp: feeds_iff)
  from p i s have "i \<in> fed_inputs h0 L"
    by (auto simp: pending_def filter_empty_conv)
  from fed_inputs_owner[OF wf L this s m o] show ?thesis .
qed

lemma pending_nonempty_feeder:
  assumes wf: "wf_net h0 net" and n: "n \<in> set (net_nodes net)"
    and p: "pending h0 (fed_inputs h0 L) n \<noteq> []"
  shows "\<exists>m\<in>set (net_nodes net). m \<notin> set L \<and> feeds h0 m n"
proof -
  from p obtain i where i: "i \<in> set (node_ins h0 n)" and s: "src (inputs h0 i) \<noteq> None"
    and x: "i \<notin> fed_inputs h0 L"
    by (auto simp: pending_def filter_empty_conv)
  from s obtain out where so: "src (inputs h0 i) = Some out" by auto
  let ?m = "out_node (outputs h0 out)"
  note w = wf_net_in[OF wf n i so]
  have "?m \<notin> set L"
  proof
    assume "?m \<in> set L"
    with w(1,3) have "i \<in> fed_inputs h0 L" by (auto simp: fed_inputs_def)
    with x show False by simp
  qed
  moreover have "feeds h0 ?m n" using i so w(3) by (auto simp: feeds_iff)
  ultimately show ?thesis using w(2) by blast
qed

lemma loop_step:
  assumes wf: "wf_net h0 net" and inv: "loop_inv h0 net (h, S, L, numEdges)" and ne: "S \<noteq> []"
  shows "\<exists>h' S' numEdges'.
           process_outputs (ports (nodes h (last S))) (h, butlast S, numEdges)
             = (None, h', S', numEdges')
         \<and> loop_inv h0 net (h', S', L @ [last S], numEdges')"
proof -
  let ?N = "set (net_nodes net)"
  let ?m = "last S"
  let ?X = "fed_inputs h0 L"
  from inv have oi: "order_inv h0 net L ?X (h, S, numEdges)" and LN: "set L \<subseteq> ?N"
    and topo: "\<forall>k<length L. \<forall>m\<in>?N. feeds h0 m (L ! k) \<longrightarrow> m \<in> set (take k L)"
    by (simp_all add: loop_inv_def)
  from oi have sg: "same_graph h h0"
    and ie: "\<forall>n\<in>?N. \<exists>es. inEdges (nodes h n) = Some es \<and> mset es = mset (pending h0 ?X n)"
    and nE: "numEdges = (\<Sum>n\<leftarrow>net_nodes net. int (length (pending h0 ?X n)))"
    and ds: "distinct (S @ L)" and ss: "set S \<subseteq> ?N"
    and em: "\<forall>n\<in>?N. pending h0 ?X n = [] \<longleftrightarrow> n \<in> set S \<union> set L"
    by (simp_all add: order_inv_def)
  have S: "S = butlast S @ [?m]" using ne by simp
  have mN: "?m \<in> ?N" using ss ne by (metis last_in_set subsetD)
  have mS: "?m \<in> set S" using ne by simp
  have setS: "set S = set (butlast S) \<union> {?m}" by (subst S) simp
  have dist': "distinct (butlast S @ L @ [?m])"
    using ds by (subst (asm) S) auto
  have mL: "?m \<notin> set L" using ds mS by auto
  have oi': "order_inv h0 net (L @ [?m]) ?X (h, butlast S, numEdges)"
    unfolding order_inv_def using sg ie nE dist' ss em setS by auto
  have ps: "ports (nodes h ?m) = ports (nodes h0 ?m)" using sg by (simp add: same_graph_def)
  have op: "out_ports (ports (nodes h ?m)) = node_outs h0 ?m" by (simp add: ps node_outs_def)
  have d: "distinct (out_ports (ports (nodes h ?m)))"
    unfolding op by (rule wf_net_node(2)[OF wf mN])
  have e: "\<forall>out\<in>set (out_ports (ports (nodes h ?m))). distinct (dsts (outputs h0 out))
              \<and> (\<forall>i\<in>set (dsts (outputs h0 out)). src (inputs h0 i) = Some out
                    \<and> in_node (inputs h0 i) \<in> ?N
                    \<and> i \<in> set (node_ins h0 (in_node (inputs h0 i))) \<and> i \<notin> ?X)"
  proof (intro ballI conjI)
    fix out assume o: "out \<in> set (out_ports (ports (nodes h ?m)))"
    then have o': "out \<in> set (node_outs h0 ?m)" by (simp add: op)
    show "distinct (dsts (outputs h0 out))" by (rule wf_net_out(2)[OF wf mN o'])
    fix i assume i: "i \<in> set (dsts (outputs h0 out))"
    note w = wf_net_out(3)[OF wf mN o' i]
    show "src (inputs h0 i) = Some out" using w by simp
    show "in_node (inputs h0 i) \<in> ?N" using w by simp
    show "i \<in> set (node_ins h0 (in_node (inputs h0 i)))" using w by simp
    show "i \<notin> ?X"
    proof
      assume "i \<in> ?X"
      from fed_inputs_owner[OF wf LN this _ mN o'] w have "?m \<in> set L" by simp
      with mL show False by simp
    qed
  qed
  from process_outputs_ok[OF wf oi' d e] obtain st' where
    r: "process_outputs (ports (nodes h ?m)) (h, butlast S, numEdges) = (None, st')"
    and i2: "order_inv h0 net (L @ [?m])
          (?X \<union> (\<Union>out\<in>set (out_ports (ports (nodes h ?m))). set (dsts (outputs h0 out)))) st'"
    by blast
  obtain h' S' n' where st': "st' = (h', S', n')" by (cases st') auto
  have X': "?X \<union> (\<Union>out\<in>set (out_ports (ports (nodes h ?m))). set (dsts (outputs h0 out)))
      = fed_inputs h0 (L @ [?m])"
    unfolding op by (auto simp: fed_inputs_def)
  have pm: "pending h0 ?X ?m = []" using em mN mS by blast
  have topo': "\<forall>k<length (L @ [?m]). \<forall>m\<in>?N.
      feeds h0 m ((L @ [?m]) ! k) \<longrightarrow> m \<in> set (take k (L @ [?m]))"
  proof (intro allI impI ballI)
    fix k m assume k: "k < length (L @ [?m])" and m: "m \<in> ?N"
      and f: "feeds h0 m ((L @ [?m]) ! k)"
    show "m \<in> set (take k (L @ [?m]))"
    proof (cases "k < length L")
      case True
      with topo m f show ?thesis by (simp add: nth_append)
    next
      case False
      with k have kl: "k = length L" by simp
      with f have "feeds h0 m ?m" by simp
      from pending_empty_feeders[OF wf LN pm m this] kl show ?thesis by simp
    qed
  qed
  have "loop_inv h0 net (h', S', L @ [?m], n')"
    unfolding loop_inv_def using i2 st' X' LN mN topo' by simp
  with r st' show ?thesis by blast
qed


lemma order_loop_ok:
  assumes wf: "wf_net h0 net" and inv: "loop_inv h0 net (h, S, L, numEdges)"
  shows "\<exists>h' L' numEdges'. order_loop (h, S, L, numEdges) = Some (None, h', [], L', numEdges')
           \<and> loop_inv h0 net (h', [], L', numEdges')"
  using inv
proof (induction "length (net_nodes net) - length L" arbitrary: h S L numEdges rule: less_induct)
  case less
  show ?case
  proof (cases "S = []")
    case True
    then have "order_loop (h, S, L, numEdges) = Some (None, h, [], L, numEdges)"
      by (subst order_loop.simps) simp
    with less.prems True show ?thesis by blast
  next
    case False
    let ?m = "last S"
    from loop_step[OF wf less.prems False] obtain h' S' n' where
      p: "process_outputs (ports (nodes h ?m)) (h, butlast S, numEdges) = (None, h', S', n')"
      and i': "loop_inv h0 net (h', S', L @ [?m], n')" by blast
    from i' have d: "distinct (L @ [?m])" and sub: "set (L @ [?m]) \<subseteq> set (net_nodes net)"
      by (auto simp: loop_inv_def order_inv_def)
    have "length (L @ [?m]) = card (set (L @ [?m]))" using d by (simp add: distinct_card)
    also have "\<dots> \<le> card (set (net_nodes net))" using sub by (intro card_mono) auto
    also have "\<dots> \<le> length (net_nodes net)" by (rule card_length)
    finally have "length (net_nodes net) - length (L @ [?m]) < length (net_nodes net) - length L"
      by simp
    from less.hyps[OF this i'] obtain h'' L' n'' where
      r: "order_loop (h', S', L @ [?m], n') = Some (None, h'', [], L', n'')"
      and i'': "loop_inv h0 net (h'', [], L', n'')" by blast
    have "order_loop (h, S, L, numEdges) = Some (None, h'', [], L', n'')"
      using False p r by (subst order_loop.simps) (simp add: Let_def)
    with i'' show ?thesis by blast
  qed
qed

lemma collect_inEdges_pending:
  "collect_inEdges h ps
     = map (\<lambda>i. the (src (inputs h i))) (filter (\<lambda>i. src (inputs h i) \<noteq> None) (in_ports ps))"
  by (induction h ps rule: collect_inEdges.induct) (auto split: option.splits)

lemma order_init_gen:
  assumes "same_graph h h0"
  shows "\<exists>h'. order_init ns (h, S, numEdges)
            = (h', S @ filter (\<lambda>n. pending h0 {} n = []) ns,
               numEdges + (\<Sum>n\<leftarrow>ns. int (length (pending h0 {} n))))
          \<and> same_graph h' h0
          \<and> (\<forall>n. inEdges (nodes h' n)
                 = (if n \<in> set ns then Some (pending h0 {} n) else inEdges (nodes h n)))"
  using assms
proof (induction ns arbitrary: h S numEdges)
  case Nil
  then show ?case by simp
next
  case (Cons n ns)
  let ?es = "collect_inEdges h (ports (nodes h n))"
  have es: "?es = pending h0 {} n"
    using Cons.prems by (simp add: collect_inEdges_pending pending_def node_ins_def same_graph_def)
  let ?h1 = "h\<lparr>nodes := (nodes h)(n := (nodes h n)\<lparr>inEdges := Some ?es\<rparr>)\<rparr>"
  have sg1: "same_graph ?h1 h0" using Cons.prems by (simp add: same_graph_def)
  from Cons.IH[OF sg1, of "if length ?es = 0 then S @ [n] else S" "numEdges + int (length ?es)"]
  obtain h' where
    r: "order_init ns (?h1, if length ?es = 0 then S @ [n] else S, numEdges + int (length ?es))
          = (h', (if length ?es = 0 then S @ [n] else S) @ filter (\<lambda>n. pending h0 {} n = []) ns,
             numEdges + int (length ?es) + (\<Sum>n\<leftarrow>ns. int (length (pending h0 {} n))))"
    and sg: "same_graph h' h0"
    and ie: "\<forall>n'. inEdges (nodes h' n')
                 = (if n' \<in> set ns then Some (pending h0 {} n') else inEdges (nodes ?h1 n'))"
    by blast
  have "order_init (n # ns) (h, S, numEdges)
      = (h', S @ filter (\<lambda>n. pending h0 {} n = []) (n # ns),
         numEdges + (\<Sum>n\<leftarrow>n # ns. int (length (pending h0 {} n))))"
    using r es by (simp add: Let_def)
  moreover have "\<forall>n'. inEdges (nodes h' n')
      = (if n' \<in> set (n # ns) then Some (pending h0 {} n') else inEdges (nodes h n'))"
    using ie es by auto
  ultimately show ?case using sg by blast
qed

lemma order_init_inv:
  assumes wf: "wf_net h0 net"
  shows "\<exists>h1 S numEdges. order_init (net_nodes net) (h0, [], 0) = (h1, S, numEdges)
           \<and> loop_inv h0 net (h1, S, [], numEdges)"
proof -
  have sg0: "same_graph h0 h0" by (simp add: same_graph_def)
  from order_init_gen[OF sg0, of "net_nodes net" "[]" 0] obtain h1 where
    r: "order_init (net_nodes net) (h0, [], 0)
          = (h1, filter (\<lambda>n. pending h0 {} n = []) (net_nodes net),
             (\<Sum>n\<leftarrow>net_nodes net. int (length (pending h0 {} n))))"
    and sg: "same_graph h1 h0"
    and ie: "\<forall>n. inEdges (nodes h1 n)
                 = (if n \<in> set (net_nodes net) then Some (pending h0 {} n)
                    else inEdges (nodes h0 n))"
    by auto
  have "loop_inv h0 net (h1, filter (\<lambda>n. pending h0 {} n = []) (net_nodes net), [],
          (\<Sum>n\<leftarrow>net_nodes net. int (length (pending h0 {} n))))"
    using sg ie wf_net_distinct[OF wf]
    by (auto simp: loop_inv_def order_inv_def fed_inputs_def)
  with r show ?thesis by blast
qed


lemma net_edges_finite: "finite (net_edges h net)"
proof (rule finite_subset)
  show "net_edges h net \<subseteq> set (net_nodes net) \<times> set (net_nodes net)"
    by (auto simp: net_edges_def)
qed simp

lemma topo_trancl:
  assumes topo: "\<forall>k<length L. \<forall>m\<in>set (net_nodes net). feeds h m (L ! k) \<longrightarrow> m \<in> set (take k L)"
    and yz: "(y, z) \<in> (net_edges h net)\<^sup>+"
  shows "\<forall>k<length L. z = L ! k \<longrightarrow> y \<in> set (take k L)"
  using yz
proof (induction rule: trancl_induct)
  case (base z)
  then show ?case using topo by (auto simp: net_edges_def)
next
  case (step z' z)
  show ?case
  proof (intro allI impI)
    fix k assume k: "k < length L" and z: "z = L ! k"
    from step.hyps(2) topo k z have "z' \<in> set (take k L)" by (auto simp: net_edges_def)
    then obtain j where j: "j < k" and zj: "z' = L ! j"
      using k by (auto simp: in_set_conv_nth)
    with step.IH k have "y \<in> set (take j L)" by simp
    then show "y \<in> set (take k L)" using j by (meson less_imp_le_nat set_take_subset_set_take subsetD)
  qed
qed

lemma sum_list_int_member:
  assumes "x \<in> set xs" and "\<forall>y\<in>set xs. (0::int) \<le> f y"
  shows "f x \<le> (\<Sum>y\<leftarrow>xs. f y)"
  using assms
proof (induction xs)
  case Nil
  then show ?case by simp
next
  case (Cons a xs)
  have nn: "0 \<le> (\<Sum>y\<leftarrow>xs. f y)" using Cons.prems(2) by (intro sum_list_nonneg) auto
  show ?case
  proof (cases "x = a")
    case True
    then show ?thesis using nn by simp
  next
    case False
    with Cons.prems have "x \<in> set xs" by simp
    from Cons.IH[OF this] Cons.prems(2) show ?thesis by simp
  qed
qed

lemma orderNodes_final:
  assumes wf: "wf_net h0 net"
  shows "\<exists>h' L numEdges.
           orderNodes h0 net =
             (if numEdges \<noteq> 0 then Some (Some (Thrown ''cycle in graph''), h', net)
              else if length L \<noteq> length (net_nodes net)
                then Some (Some (Thrown ''invalid ordering length''), h', net)
              else Some (None, h', net\<lparr>order := Some L\<rparr>))
         \<and> loop_inv h0 net (h', [], L, numEdges)"
proof -
  from order_init_inv[OF wf] obtain h1 S n1 where
    i: "order_init (net_nodes net) (h0, [], 0) = (h1, S, n1)"
    and li: "loop_inv h0 net (h1, S, [], n1)" by blast
  from order_loop_ok[OF wf li] obtain h' L n' where
    l: "order_loop (h1, S, [], n1) = Some (None, h', [], L, n')"
    and lf: "loop_inv h0 net (h', [], L, n')" by blast
  have "orderNodes h0 net =
             (if n' \<noteq> 0 then Some (Some (Thrown ''cycle in graph''), h', net)
              else if length L \<noteq> length (net_nodes net)
                then Some (Some (Thrown ''invalid ordering length''), h', net)
              else Some (None, h', net\<lparr>order := Some L\<rparr>))"
    using i l by (simp add: orderNodes_def)
  with lf show ?thesis by blast
qed

lemma orderNodes_acyclic:
  assumes wf: "wf_net h0 net" and ac: "acyclic (net_edges h0 net)"
  shows "\<exists>h' L. orderNodes h0 net = Some (None, h', net\<lparr>order := Some L\<rparr>)
           \<and> topological h0 net L \<and> same_graph h' h0"
proof -
  let ?N = "set (net_nodes net)"
  from orderNodes_final[OF wf] obtain h' L numEdges where
    r: "orderNodes h0 net =
             (if numEdges \<noteq> 0 then Some (Some (Thrown ''cycle in graph''), h', net)
              else if length L \<noteq> length (net_nodes net)
                then Some (Some (Thrown ''invalid ordering length''), h', net)
              else Some (None, h', net\<lparr>order := Some L\<rparr>))"
    and li: "loop_inv h0 net (h', [], L, numEdges)" by blast
  let ?X = "fed_inputs h0 L"
  from li have sg: "same_graph h' h0" and dL: "distinct L" and LN: "set L \<subseteq> ?N"
    and nE: "numEdges = (\<Sum>n\<leftarrow>net_nodes net. int (length (pending h0 ?X n)))"
    and em: "\<forall>n\<in>?N. pending h0 ?X n = [] \<longleftrightarrow> n \<in> set L"
    and topo: "\<forall>k<length L. \<forall>m\<in>?N. feeds h0 m (L ! k) \<longrightarrow> m \<in> set (take k L)"
    by (simp_all add: loop_inv_def order_inv_def)
  have all: "set L = ?N"
  proof (rule ccontr)
    assume "set L \<noteq> ?N"
    with LN obtain n where nR: "n \<in> ?N - set L" by auto
    have w: "wf (net_edges h0 net)"
      using net_edges_finite ac by (rule finite_acyclic_wf)
    obtain z where z: "z \<in> ?N - set L"
      and min: "\<And>y. (y, z) \<in> net_edges h0 net \<Longrightarrow> y \<notin> ?N - set L"
      by (rule wfE_min[OF w nR]) blast
    from z em have "pending h0 ?X z \<noteq> []" by auto
    from pending_nonempty_feeder[OF wf _ this] z obtain m where
      m: "m \<in> ?N" "m \<notin> set L" "feeds h0 m z" by auto
    then have "(m, z) \<in> net_edges h0 net" using z by (simp add: net_edges_def)
    from min[OF this] m show False by simp
  qed
  have n0: "numEdges = 0"
  proof -
    have "\<forall>n\<in>?N. pending h0 ?X n = []" using em all by simp
    then have "(\<Sum>n\<leftarrow>net_nodes net. int (length (pending h0 ?X n))) = (\<Sum>n\<leftarrow>net_nodes net. 0)"
      by (intro arg_cong[where f = sum_list] map_cong) auto
    then show ?thesis using nE by simp
  qed
  have len: "length L = length (net_nodes net)"
    using dL wf_net_distinct[OF wf] all by (metis distinct_card)
  have "topological h0 net L"
    unfolding topological_def using dL all len topo by (auto simp: list_all_iff)
  with r n0 len sg show ?thesis by auto
qed

lemma orderNodes_cyclic:
  assumes wf: "wf_net h0 net" and cy: "\<not> acyclic (net_edges h0 net)"
  shows "\<exists>h'. orderNodes h0 net = Some (Some (Thrown ''cycle in graph''), h', net)
           \<and> same_graph h' h0"
proof -
  let ?N = "set (net_nodes net)"
  from orderNodes_final[OF wf] obtain h' L numEdges where
    r: "orderNodes h0 net =
             (if numEdges \<noteq> 0 then Some (Some (Thrown ''cycle in graph''), h', net)
              else if length L \<noteq> length (net_nodes net)
                then Some (Some (Thrown ''invalid ordering length''), h', net)
              else Some (None, h', net\<lparr>order := Some L\<rparr>))"
    and li: "loop_inv h0 net (h', [], L, numEdges)" by blast
  let ?X = "fed_inputs h0 L"
  from li have sg: "same_graph h' h0" and dL: "distinct L" and LN: "set L \<subseteq> ?N"
    and nE: "numEdges = (\<Sum>n\<leftarrow>net_nodes net. int (length (pending h0 ?X n)))"
    and em: "\<forall>n\<in>?N. pending h0 ?X n = [] \<longleftrightarrow> n \<in> set L"
    and topo: "\<forall>k<length L. \<forall>m\<in>?N. feeds h0 m (L ! k) \<longrightarrow> m \<in> set (take k L)"
    by (simp_all add: loop_inv_def order_inv_def)
  from cy obtain x where x: "(x, x) \<in> (net_edges h0 net)\<^sup>+" by (auto simp: acyclic_def)
  have xN: "x \<in> ?N"
    using x by (metis (no_types, lifting) converse_tranclE mem_Collect_eq net_edges_def
        case_prodD)
  have xL: "x \<notin> set L"
  proof
    assume "x \<in> set L"
    then obtain k where k: "k < length L" and xk: "x = L ! k" by (auto simp: in_set_conv_nth)
    from topo_trancl[OF topo x] k xk have "x \<in> set (take k L)" by simp
    then obtain j where j: "j < k" and xj: "x = L ! j" using k by (auto simp: in_set_conv_nth)
    with dL k xk show False by (simp add: nth_eq_iff_index_eq)
  qed
  from em xN xL have "pending h0 ?X x \<noteq> []" by auto
  then have "1 \<le> int (length (pending h0 ?X x))" by (cases "pending h0 ?X x") auto
  also have "\<dots> \<le> numEdges"
    unfolding nE by (rule sum_list_int_member[OF xN]) simp
  finally have "numEdges \<noteq> 0" by simp
  with r sg show ?thesis by auto
qed


text \<open>
  Without the condition that every connected port belongs to a node of the network, an
  acyclic graph is not enough.  In the chain the instrument feeds the output node and
  nothing else is connected; when only the output node was added to the network, its one
  input edge is counted and never removed, so \<open>orderNodes\<close> throws 'cycle in graph' and
  stores no order.
\<close>

theorem orderNodes_dangling_counterexample:
  "acyclic (net_edges chain_heap chain_net)
   \<and> acyclic (net_edges chain_heap dangling_net)
   \<and> order_outcome (orderNodes chain_heap dangling_net)
        = Some (Some (Thrown ''cycle in graph''), None)"
proof -
  have e1: "net_edges chain_heap chain_net = {(0, 1)}"
    by (auto simp: net_edges_def feeds_def chain_heap_def chain_net_def node_ins_def
        node_outs_def heap_new_def SynthOutput_new_def SynthInput_new_def)
  have a1: "acyclic (net_edges chain_heap chain_net)"
    unfolding e1 by (rule acyclicI_order[where f = "\<lambda>x::nat. 1 - x"]) simp
  have e2: "net_edges chain_heap dangling_net = {}"
    by (auto simp: net_edges_def feeds_def chain_heap_def dangling_net_def node_ins_def
        node_outs_def heap_new_def SynthOutput_new_def SynthInput_new_def)
  have a2: "acyclic (net_edges chain_heap dangling_net)"
    unfolding e2 by (simp add: acyclic_def)
  have o: "order_outcome (orderNodes chain_heap dangling_net)
      = Some (Some (Thrown ''cycle in graph''), None)"
    by (simp add: order_outcome_def orderNodes_def order_loop.simps chain_heap_def
        dangling_net_def heap_new_def SynthOutput_new_def SynthInput_new_def Let_def)
  from a1 a2 o show ?thesis by blast
qed

text \<open>
  Claim C3, as amended.  For a well-formed network (the nodes and ports are as the constructors,
  \<open>connect\<close> and \<open>addNode\<close> leave them, and every connected port belongs to a node of the
  network): if the connection graph is acyclic, \<open>orderNodes\<close> ends, throws nothing and
  stores an order that lists every node of the network exactly once and every node after
  all the nodes that feed it; if the graph has a cycle, \<open>orderNodes\<close> ends by throwing
  'cycle in graph' and the network, with its stored order, is as it was.  In both cases
  the store changes in the fields \<open>inEdges\<close> only.
\<close>

theorem orderNodes_topological_or_cycle:
  assumes "wf_net h net"
  shows "(acyclic (net_edges h net)
          \<longrightarrow> (\<exists>h' L. orderNodes h net = Some (None, h', net\<lparr>order := Some L\<rparr>)
                 \<and> topological h net L \<and> same_graph h' h))
       \<and> (\<not> acyclic (net_edges h net)
          \<longrightarrow> (\<exists>h'. orderNodes h net = Some (Some (Thrown ''cycle in graph''), h', net)
                 \<and> same_graph h' h))"
  using orderNodes_acyclic[OF assms] orderNodes_cyclic[OF assms] by blast

text \<open>
  The witness: on the chain, whose output node was added first, the stored order is the
  instrument, then the output node; on the ring, \<open>orderNodes\<close> throws and stores nothing.
\<close>

theorem orderNodes_topological_or_cycle_witness:
  "wf_net chain_heap chain_net \<and> acyclic (net_edges chain_heap chain_net)
   \<and> order_outcome (orderNodes chain_heap chain_net) = Some (None, Some [0, 1])
   \<and> topological chain_heap chain_net [0, 1]
   \<and> wf_net ring_heap ring_net \<and> \<not> acyclic (net_edges ring_heap ring_net)
   \<and> order_outcome (orderNodes ring_heap ring_net) = Some (Some (Thrown ''cycle in graph''), None)"
proof -
  have w1: "wf_net chain_heap chain_net"
    by (simp add: wf_net_def chain_heap_def chain_net_def node_ins_def node_outs_def
        heap_new_def SynthOutput_new_def SynthInput_new_def)
  have w2: "wf_net ring_heap ring_net"
    by (simp add: wf_net_def ring_heap_def ring_net_def node_ins_def node_outs_def
        heap_new_def SynthOutput_new_def SynthInput_new_def)
  have e1: "net_edges chain_heap chain_net = {(0, 1)}"
    by (auto simp: net_edges_def feeds_def chain_heap_def chain_net_def node_ins_def
        node_outs_def heap_new_def SynthOutput_new_def SynthInput_new_def)
  have a1: "acyclic (net_edges chain_heap chain_net)"
    unfolding e1 by (rule acyclicI_order[where f = "\<lambda>x::nat. 1 - x"]) simp
  have e2: "(0, 1) \<in> net_edges ring_heap ring_net" "(1, 0) \<in> net_edges ring_heap ring_net"
    by (simp_all add: net_edges_def feeds_def ring_heap_def ring_net_def node_ins_def
        node_outs_def heap_new_def SynthOutput_new_def SynthInput_new_def)
  have a2: "\<not> acyclic (net_edges ring_heap ring_net)"
    using e2 by (meson acyclic_def trancl.simps)
  have o1: "order_outcome (orderNodes chain_heap chain_net) = Some (None, Some [0, 1])"
    using orderNodes_topological_or_cycle[OF w1]
    by (simp add: order_outcome_def orderNodes_def order_loop.simps chain_heap_def chain_net_def
        heap_new_def SynthOutput_new_def SynthInput_new_def Let_def)
  have o2: "order_outcome (orderNodes ring_heap ring_net)
      = Some (Some (Thrown ''cycle in graph''), None)"
    using orderNodes_topological_or_cycle[OF w2]
    by (simp add: order_outcome_def orderNodes_def order_loop.simps ring_heap_def ring_net_def
        heap_new_def SynthOutput_new_def SynthInput_new_def Let_def)
  have t1: "topological chain_heap chain_net [0, 1]"
    by (auto simp: topological_def feeds_def chain_heap_def chain_net_def node_ins_def
        node_outs_def heap_new_def SynthOutput_new_def SynthInput_new_def upt_rec)
  from w1 a1 o1 t1 w2 a2 o2 show ?thesis by blast
qed

section \<open>The hasData flag of an output port\<close>

lemma SynthOutput_getBuffer_frame:
  "SynthOutput_getBuffer out chanIdx =
     (if chanIdx = None \<and> out_numChans out > 1
      then (Inl (Thrown ''channel idx must be specified when more than 1 channel''), out)
      else (Inr (let c = (case chanIdx of None \<Rightarrow> 0 | Some k \<Rightarrow> k)
                 in if c < length (buffers out) then Some (buffers out ! c) else None),
            out\<lparr>hasData := True\<rparr>))"
  by (simp add: SynthOutput_getBuffer_def Let_def)

lemma reset_outputs_outputs:
  "outputs (reset_outputs ps h) out
     = (if out \<in> set (out_ports ps) then (outputs h out)\<lparr>hasData := False\<rparr> else outputs h out)"
  by (induction ps h rule: reset_outputs.induct) auto

lemma reset_outputs_rest:
  "inputs (reset_outputs ps h) = inputs h \<and> nodes (reset_outputs ps h) = nodes h"
  by (induction ps h rule: reset_outputs.induct) auto

lemma run_port_op_rest:
  "run_port_op op h = Inr h' \<Longrightarrow> inputs h' = inputs h \<and> nodes h' = nodes h"
  by (cases op) (auto simp: SynthOutput_getBuffer_frame split: if_splits)

lemma run_port_op_other:
  "run_port_op op h = Inr h' \<Longrightarrow> op_port op \<noteq> out \<Longrightarrow> outputs h' out = outputs h out"
  by (cases op) (auto simp: SynthOutput_getBuffer_frame split: if_splits)

lemma run_port_op_hasData:
  "run_port_op op h = Inr h' \<Longrightarrow>
   hasData (outputs h' out) = (hasData (outputs h out) \<or> calls_getBuffer [op] out)"
  by (cases op) (auto simp: SynthOutput_getBuffer_frame calls_getBuffer_def split: if_splits)

lemma calls_getBuffer_Cons:
  "calls_getBuffer (op # ops) out = (calls_getBuffer [op] out \<or> calls_getBuffer ops out)"
  by (simp add: calls_getBuffer_def)

lemma run_port_ops_rest:
  "run_port_ops ops h = Inr h' \<Longrightarrow> inputs h' = inputs h \<and> nodes h' = nodes h"
proof (induction ops arbitrary: h)
  case Nil
  then show ?case by simp
next
  case (Cons op ops)
  then obtain h1 where 1: "run_port_op op h = Inr h1" and 2: "run_port_ops ops h1 = Inr h'"
    by (auto split: sum.splits)
  from run_port_op_rest[OF 1] Cons.IH[OF 2] show ?case by simp
qed

lemma run_port_ops_other:
  "run_port_ops ops h = Inr h' \<Longrightarrow> \<forall>op\<in>set ops. op_port op \<noteq> out \<Longrightarrow>
   outputs h' out = outputs h out"
proof (induction ops arbitrary: h)
  case Nil
  then show ?case by simp
next
  case (Cons op ops)
  then obtain h1 where 1: "run_port_op op h = Inr h1" and 2: "run_port_ops ops h1 = Inr h'"
    by (auto split: sum.splits)
  from run_port_op_other[OF 1, of out] Cons.IH[OF 2] Cons.prems(2) show ?case by simp
qed

lemma run_port_ops_hasData:
  "run_port_ops ops h = Inr h' \<Longrightarrow>
   hasData (outputs h' out) = (hasData (outputs h out) \<or> calls_getBuffer ops out)"
proof (induction ops arbitrary: h)
  case Nil
  then show ?case by (simp add: calls_getBuffer_def)
next
  case (Cons op ops)
  then obtain h1 where 1: "run_port_op op h = Inr h1" and 2: "run_port_ops ops h1 = Inr h'"
    by (auto split: sum.splits)
  from run_port_op_hasData[OF 1, of out] Cons.IH[OF 2] show ?case
    by (subst calls_getBuffer_Cons) simp
qed

lemma genOutput_node_rest:
  "genOutput_node upd time rate node h = Inr h' \<Longrightarrow> inputs h' = inputs h \<and> nodes h' = nodes h"
  unfolding genOutput_node_def Let_def
  using run_port_ops_rest reset_outputs_rest by metis

lemma genOutput_node_own:
  assumes "genOutput_node upd time rate node h = Inr h'"
    and "out \<in> set (node_outs h node)"
  shows "hasData (outputs h' out)
       = calls_getBuffer (upd node time rate (reset_outputs (ports (nodes h node)) h)) out"
  using assms run_port_ops_hasData[of "upd node time rate (reset_outputs (ports (nodes h node)) h)"
      "reset_outputs (ports (nodes h node)) h" h' out]
  by (simp add: genOutput_node_def Let_def reset_outputs_outputs node_outs_def)

lemma genOutput_node_other:
  assumes "genOutput_node upd time rate node h = Inr h'"
    and "out \<notin> set (node_outs h node)"
    and "\<forall>op\<in>set (upd node time rate (reset_outputs (ports (nodes h node)) h)). op_port op \<noteq> out"
  shows "outputs h' out = outputs h out"
  using assms run_port_ops_other[of "upd node time rate (reset_outputs (ports (nodes h node)) h)"
      "reset_outputs (ports (nodes h node)) h" h' out]
  by (simp add: genOutput_node_def Let_def reset_outputs_outputs node_outs_def)

lemma genOutput_loop_other:
  assumes "genOutput_loop upd time rate ns h = Inr h'"
    and "\<forall>n\<in>set ns. out \<notin> set (node_outs h n)"
    and "\<forall>n\<in>set ns. \<forall>h1. \<forall>op\<in>set (upd n time rate h1). op_port op \<noteq> out"
  shows "outputs h' out = outputs h out"
  using assms
proof (induction ns arbitrary: h)
  case Nil
  then show ?case by simp
next
  case (Cons n ns)
  then obtain h1 where 1: "genOutput_node upd time rate n h = Inr h1"
    and 2: "genOutput_loop upd time rate ns h1 = Inr h'"
    by (auto split: sum.splits)
  from genOutput_node_rest[OF 1] have nd: "nodes h1 = nodes h" by simp
  have a: "outputs h1 out = outputs h out"
    using genOutput_node_other[OF 1] Cons.prems(2,3) by simp
  have "\<forall>n\<in>set ns. out \<notin> set (node_outs h1 n)"
    using Cons.prems(2) nd by (simp add: node_outs_def)
  from Cons.IH[OF 2 this] Cons.prems(3) a show ?case by simp
qed

lemma genOutput_loop_append:
  "genOutput_loop upd time rate (xs @ ys) h = Inr h' \<longleftrightarrow>
   (\<exists>h1. genOutput_loop upd time rate xs h = Inr h1 \<and> genOutput_loop upd time rate ys h1 = Inr h')"
  by (induction xs arbitrary: h) (auto split: sum.splits)

lemma genOutput_loop_rest:
  "genOutput_loop upd time rate ns h = Inr h' \<Longrightarrow> inputs h' = inputs h \<and> nodes h' = nodes h"
proof (induction ns arbitrary: h)
  case Nil
  then show ?case by simp
next
  case (Cons n ns)
  then obtain h1 where 1: "genOutput_node upd time rate n h = Inr h1"
    and 2: "genOutput_loop upd time rate ns h1 = Inr h'"
    by (auto split: sum.splits)
  from genOutput_node_rest[OF 1] Cons.IH[OF 2] show ?case by simp
qed

lemma genOutput_downstream:
  assumes run: "genOutput_loop upd time rate (pre @ u # mid) h = Inr h3"
    and uo: "out \<in> set (node_outs h u)"
    and mp: "\<forall>n\<in>set mid. out \<notin> set (node_outs h n)"
    and mo: "\<forall>n\<in>set mid. \<forall>h'. \<forall>op\<in>set (upd n time rate h'). op_port op \<noteq> out"
    and inp: "src inp = Some out"
  shows "\<exists>h1. genOutput_loop upd time rate pre h = Inr h1
           \<and> (SynthInput_hasData h3 inp
                \<longleftrightarrow> calls_getBuffer (upd u time rate (reset_outputs (ports (nodes h1 u)) h1)) out)"
proof -
  from run obtain h1 where 1: "genOutput_loop upd time rate pre h = Inr h1"
    and r: "genOutput_loop upd time rate (u # mid) h1 = Inr h3"
    unfolding genOutput_loop_append by blast
  from r obtain h2 where 2: "genOutput_node upd time rate u h1 = Inr h2"
    and 3: "genOutput_loop upd time rate mid h2 = Inr h3"
    by (cases "genOutput_node upd time rate u h1") auto
  from genOutput_loop_rest[OF 1] have n1: "nodes h1 = nodes h" by simp
  from genOutput_node_rest[OF 2] n1 have n2: "nodes h2 = nodes h" by simp
  have uo1: "out \<in> set (node_outs h1 u)" using uo n1 by (simp add: node_outs_def)
  have a: "hasData (outputs h2 out)
       = calls_getBuffer (upd u time rate (reset_outputs (ports (nodes h1 u)) h1)) out"
    by (rule genOutput_node_own[OF 2 uo1])
  have "\<forall>n\<in>set mid. out \<notin> set (node_outs h2 n)" using mp n2 by (simp add: node_outs_def)
  from genOutput_loop_other[OF 3 this mo] have "outputs h3 out = outputs h2 out" .
  with a inp 1 show ?thesis by (simp add: SynthInput_hasData_def)
qed


lemma update_marks_output:
  assumes "update rnd time rate (va, h, k) = Inr (va', h', k')"
  shows "hasData (outputs h' (va_output va))
       = (hasData (outputs h (va_output va)) \<or> actNotes va \<noteq> [])"
proof (cases "actNotes va = []")
  case True
  with assms show ?thesis by (simp add: update_def)
next
  case False
  with assms show ?thesis
    by (auto simp: update_def SynthOutput_getBuffer_frame Let_def
        split: sum.splits option.splits if_splits prod.splits)
qed

text \<open>
  Claim C10.  (1) A call of \<open>getBuffer\<close> on an output port that passes its assertion
  returns and leaves the port as it was except for \<open>hasData\<close>, which is true, whether or
  not the caller writes into the buffer; a call whose assertion fails throws and leaves
  the port as it was.  (2) The reset of \<open>genOutput\<close> sets \<open>hasData\<close> to false on the output
  ports of the node, changes nothing else, and the operations of an update never set the
  flag back to false: after them the flag of a port is true exactly when it was true
  before or the update called \<open>getBuffer\<close> on the port.  (3) In a run of the loop of
  \<open>genOutput\<close> over an order in which the node \<open>u\<close> that owns the output port comes
  first and the nodes up to the reader neither own nor touch that port, an input
  connected to the port observes \<open>hasData\<close> true exactly when the update of \<open>u\<close> in this
  run called \<open>getBuffer\<close> on the port.
\<close>

theorem getBuffer_sets_hasData:
  "(\<not> (chanIdx = None \<and> out_numChans port > 1)
      \<longrightarrow> snd (SynthOutput_getBuffer port chanIdx) = port\<lparr>hasData := True\<rparr>
          \<and> (\<exists>b. fst (SynthOutput_getBuffer port chanIdx) = Inr b))
   \<and> (chanIdx = None \<and> out_numChans port > 1
      \<longrightarrow> snd (SynthOutput_getBuffer port chanIdx) = port
          \<and> (\<exists>e. fst (SynthOutput_getBuffer port chanIdx) = Inl e))
   \<and> outputs (reset_outputs ps h) out
        = (if out \<in> set (out_ports ps) then (outputs h out)\<lparr>hasData := False\<rparr> else outputs h out)
   \<and> inputs (reset_outputs ps h) = inputs h \<and> nodes (reset_outputs ps h) = nodes h
   \<and> (run_port_ops ops h = Inr h'
      \<longrightarrow> hasData (outputs h' out) = (hasData (outputs h out) \<or> calls_getBuffer ops out))
   \<and> (genOutput_loop upd time rate (pre @ u # mid) h = Inr h3
        \<and> out \<in> set (node_outs h u)
        \<and> (\<forall>n\<in>set mid. out \<notin> set (node_outs h n))
        \<and> (\<forall>n\<in>set mid. \<forall>h1. \<forall>op\<in>set (upd n time rate h1). op_port op \<noteq> out)
        \<and> src inp = Some out
      \<longrightarrow> (\<exists>h1. genOutput_loop upd time rate pre h = Inr h1
             \<and> (SynthInput_hasData h3 inp
                  \<longleftrightarrow> calls_getBuffer
                        (upd u time rate (reset_outputs (ports (nodes h1 u)) h1)) out)))"
proof -
  have 1: "\<not> (chanIdx = None \<and> out_numChans port > 1)
      \<longrightarrow> snd (SynthOutput_getBuffer port chanIdx) = port\<lparr>hasData := True\<rparr>
          \<and> (\<exists>b. fst (SynthOutput_getBuffer port chanIdx) = Inr b)"
    by (simp add: SynthOutput_getBuffer_frame)
  have 2: "chanIdx = None \<and> out_numChans port > 1
      \<longrightarrow> snd (SynthOutput_getBuffer port chanIdx) = port
          \<and> (\<exists>e. fst (SynthOutput_getBuffer port chanIdx) = Inl e)"
    by (simp add: SynthOutput_getBuffer_frame)
  have 3: "outputs (reset_outputs ps h) out
        = (if out \<in> set (out_ports ps) then (outputs h out)\<lparr>hasData := False\<rparr> else outputs h out)"
    by (rule reset_outputs_outputs)
  have 4: "inputs (reset_outputs ps h) = inputs h" "nodes (reset_outputs ps h) = nodes h"
    using reset_outputs_rest by simp_all
  have 5: "run_port_ops ops h = Inr h'
      \<longrightarrow> hasData (outputs h' out) = (hasData (outputs h out) \<or> calls_getBuffer ops out)"
    using run_port_ops_hasData by blast
  have 6: "genOutput_loop upd time rate (pre @ u # mid) h = Inr h3
        \<and> out \<in> set (node_outs h u)
        \<and> (\<forall>n\<in>set mid. out \<notin> set (node_outs h n))
        \<and> (\<forall>n\<in>set mid. \<forall>h1. \<forall>op\<in>set (upd n time rate h1). op_port op \<noteq> out)
        \<and> src inp = Some out
      \<longrightarrow> (\<exists>h1. genOutput_loop upd time rate pre h = Inr h1
             \<and> (SynthInput_hasData h3 inp
                  \<longleftrightarrow> calls_getBuffer
                        (upd u time rate (reset_outputs (ports (nodes h1 u)) h1)) out))"
    using genOutput_downstream[of upd time rate pre u mid h h3 out inp] by blast
  show ?thesis
    by (intro conjI) (rule 1, rule 2, rule 3, rule 4(1), rule 4(2), rule 5, rule 6)
qed

text \<open>
  The witness, on the chain: in a block in which the instrument calls \<open>getBuffer\<close>, the
  input of the output node observes data; in the next block, in which the instrument does
  nothing, the flag has been reset and the input observes none.
\<close>

theorem getBuffer_sets_hasData_witness:
  "(case genOutput_loop chain_upd 0 44100 [0] chain_heap of
      Inl e \<Rightarrow> False
    | Inr h3 \<Rightarrow>
        SynthInput_hasData h3 (inputs chain_heap 0)
        \<and> (case genOutput_loop silent_upd 1 44100 [0] h3 of
             Inl e \<Rightarrow> False
           | Inr h4 \<Rightarrow> \<not> SynthInput_hasData h4 (inputs chain_heap 0)))"
proof -
  have r1: "\<exists>h3. genOutput_loop chain_upd 0 44100 ([] @ 0 # []) chain_heap = Inr h3"
    by (simp add: genOutput_node_def chain_upd_def SynthOutput_getBuffer_frame Let_def)
  then obtain h3 where h3: "genOutput_loop chain_upd 0 44100 ([] @ 0 # []) chain_heap = Inr h3"
    by blast
  have o1: "0 \<in> set (node_outs chain_heap 0)"
    by (simp add: node_outs_def chain_heap_def)
  have s1: "src (inputs chain_heap 0) = Some 0"
    by (simp add: chain_heap_def)
  from getBuffer_sets_hasData[where upd = chain_upd and time = 0 and rate = 44100
      and pre = "[]" and u = 0 and mid = "[]" and h = chain_heap and ?h3.0 = h3 and out = 0
      and inp = "inputs chain_heap 0"] h3 o1 s1
  have d1: "SynthInput_hasData h3 (inputs chain_heap 0)"
    by (simp add: chain_upd_def calls_getBuffer_def)
  have n3: "nodes h3 = nodes chain_heap"
    using genOutput_loop_rest[OF h3] by simp
  have r2: "\<exists>h4. genOutput_loop silent_upd 1 44100 ([] @ 0 # []) h3 = Inr h4"
    by (simp add: genOutput_node_def silent_upd_def Let_def)
  then obtain h4 where h4: "genOutput_loop silent_upd 1 44100 ([] @ 0 # []) h3 = Inr h4"
    by blast
  have o2: "0 \<in> set (node_outs h3 0)"
    using o1 n3 by (simp add: node_outs_def)
  from getBuffer_sets_hasData[where upd = silent_upd and time = 1 and rate = 44100
      and pre = "[]" and u = 0 and mid = "[]" and h = h3 and ?h3.0 = h4 and out = 0
      and inp = "inputs chain_heap 0"] h4 o2 s1
  have d2: "\<not> SynthInput_hasData h4 (inputs chain_heap 0)"
    by (simp add: silent_upd_def calls_getBuffer_def)
  from h3 d1 h4 d2 show ?thesis by simp
qed

section \<open>Retriggering a voice\<close>

lemma find_note_Some:
  "find_note sts n = Some k \<Longrightarrow> k < length sts \<and> vnote (sts ! k) = n"
proof (induction sts arbitrary: k)
  case Nil
  then show ?case by simp
next
  case (Cons st sts)
  show ?case
  proof (cases "vnote st = n")
    case True
    with Cons.prems show ?thesis by simp
  next
    case False
    with Cons.prems obtain j where j: "find_note sts n = Some j" and k: "k = Suc j"
      by auto
    from Cons.IH[OF j] k show ?thesis by simp
  qed
qed

lemma find_note_first:
  "find_note sts n = Some k \<Longrightarrow> j < k \<Longrightarrow> vnote (sts ! j) \<noteq> n"
proof (induction sts arbitrary: k j)
  case Nil
  then show ?case by simp
next
  case (Cons st sts)
  show ?case
  proof (cases "vnote st = n")
    case True
    with Cons.prems show ?thesis by simp
  next
    case False
    with Cons.prems obtain i where i: "find_note sts n = Some i" and k: "k = Suc i"
      by auto
    show ?thesis
    proof (cases j)
      case 0
      with False show ?thesis by simp
    next
      case (Suc j')
      with Cons.prems(2) k have "j' < i" by simp
      from Cons.IH[OF i this] Suc show ?thesis by simp
    qed
  qed
qed

lemma noteOn_oscs_ok:
  "length ps \<le> length sts \<Longrightarrow>
   \<exists>sts'. noteOn_oscs ps sts t onT offT = Inr sts' \<and> length sts' = length sts
     \<and> (\<forall>i < length sts. sts' ! i =
          (if i < length ps
           then (sts ! i)\<lparr>onAmp := getValue (osc_env (ps ! i)) t onT offT
                               (onAmp (sts ! i)) (offAmp (sts ! i))\<rparr>
           else sts ! i))"
proof (induction ps sts t onT offT rule: noteOn_oscs.induct)
  case (1 sts time onT offT)
  then show ?case by simp
next
  case (2 p ps time onT offT)
  then show ?case by simp
next
  case (3 p ps st sts time onT offT)
  then have "length ps \<le> length sts" by simp
  from 3(1)[OF this] obtain sts' where
    r: "noteOn_oscs ps sts time onT offT = Inr sts'" and l: "length sts' = length sts"
    and e: "\<forall>i < length sts. sts' ! i =
          (if i < length ps
           then (sts ! i)\<lparr>onAmp := getValue (osc_env (ps ! i)) time onT offT
                               (onAmp (sts ! i)) (offAmp (sts ! i))\<rparr>
           else sts ! i)"
    by blast
  show ?case
  proof (intro exI conjI allI impI)
    show "noteOn_oscs (p # ps) (st # sts) time onT offT
        = Inr (st\<lparr>onAmp := getValue (osc_env p) time onT offT (onAmp st) (offAmp st)\<rparr> # sts')"
      using r by simp
    show "length (st\<lparr>onAmp := getValue (osc_env p) time onT offT (onAmp st) (offAmp st)\<rparr> # sts')
        = length (st # sts)"
      using l by simp
  next
    fix i assume "i < length (st # sts)"
    then show "(st\<lparr>onAmp := getValue (osc_env p) time onT offT (onAmp st) (offAmp st)\<rparr> # sts') ! i =
          (if i < length (p # ps)
           then ((st # sts) ! i)\<lparr>onAmp := getValue (osc_env ((p # ps) ! i)) time onT offT
                               (onAmp ((st # sts) ! i)) (offAmp ((st # sts) ! i))\<rparr>
           else (st # sts) ! i)"
      using e by (cases i) auto
  qed
qed

lemma processEvent_retrigger:
  assumes f: "find_note (actNotes va) n = Some k"
    and len: "length (oscs va) \<le> length (oscStates (actNotes va ! k))"
  shows "\<exists>new. processEvent va (NoteOnEvt te n v) t = Inr (va\<lparr>actNotes := (actNotes va)[k := new]\<rparr>)
           \<and> retriggered (oscs va) (filterEnv va) (pitchEnv va) t v (actNotes va ! k) new"
proof -
  let ?old = "actNotes va ! k"
  from noteOn_oscs_ok[OF len, of t "onTime ?old" "offTime ?old"] obtain sts' where
    r: "noteOn_oscs (oscs va) (oscStates ?old) t (onTime ?old) (offTime ?old) = Inr sts'"
    and l: "length sts' = length (oscStates ?old)"
    and e: "\<forall>i < length (oscStates ?old). sts' ! i =
          (if i < length (oscs va)
           then (oscStates ?old ! i)\<lparr>onAmp := getValue (osc_env (oscs va ! i)) t (onTime ?old)
                  (offTime ?old) (onAmp (oscStates ?old ! i)) (offAmp (oscStates ?old ! i))\<rparr>
           else oscStates ?old ! i)"
    by blast
  let ?new = "?old\<lparr>oscStates := sts',
       filterOnEnv := getValue (filterEnv va) t (onTime ?old) (offTime ?old)
          (filterOnEnv ?old) (filterOffEnv ?old),
       pitchOnEnv := getValue (pitchEnv va) t (onTime ?old) (offTime ?old)
          (pitchOnEnv ?old) (pitchOffEnv ?old),
       vel := v, onTime := t, offTime := 0\<rparr>"
  have 1: "processEvent va (NoteOnEvt te n v) t = Inr (va\<lparr>actNotes := (actNotes va)[k := ?new]\<rparr>)"
    using f r by (simp add: processEvent_def Let_def)
  have 2: "retriggered (oscs va) (filterEnv va) (pitchEnv va) t v ?old ?new"
    using l e len by (simp add: retriggered_def list_all_iff)
  from 1 2 show ?thesis by blast
qed

lemma Math_pow_zero:
  "0 < ex \<Longrightarrow> Math_pow 0 ex = 0"
proof -
  assume p: "0 < ex"
  show ?thesis
  proof (cases "ex = of_int \<lfloor>ex\<rfloor> \<and> 0 \<le> ex")
    case True
    then have "ex = of_int \<lfloor>ex\<rfloor>" by simp
    with p have "0 < \<lfloor>ex\<rfloor>" by linarith
    then have "0 < nat \<lfloor>ex\<rfloor>" by simp
    with True show ?thesis by (simp add: Math_pow_def)
  next
    case False
    then show ?thesis by (auto simp: Math_pow_def)
  qed
qed

lemma Math_pow_one:
  "Math_pow 1 ex = 1"
  by (simp add: Math_pow_def)

lemma interp_start:
  "0 < ex \<Longrightarrow> interp 0 yL yR ex = yL"
  by (simp add: interp_def Math_pow_zero Math_pow_one)

lemma interp_start_down:
  "yR \<le> yL \<Longrightarrow> interp 0 yL yR ex = yL"
  by (simp add: interp_def Math_pow_one)

lemma getValue_at_onset:
  assumes "attack_positive env"
  shows "getValue env t t 0 onA offA = onA"
proof (cases "env_a env")
  case (Finite a)
  with assms show ?thesis
    by (simp add: getValue_def attack_positive_def interp_start)
next
  case Infinity
  with assms show ?thesis
    by (simp add: getValue_def attack_positive_def interp_start)
qed

lemma getValue_at_onset_zero_attack:
  assumes "env_a env = Finite 0" and "dur_less 0 (env_d env)" and "env_s env \<le> 1"
  shows "getValue env t t 0 onA offA = 1"
proof (cases "env_d env")
  case (Finite d)
  with assms show ?thesis
    by (simp add: getValue_def interp_start_down)
next
  case Infinity
  with assms show ?thesis
    by (simp add: getValue_def interp_start_down)
qed

text \<open>
  Claim C4, the counterexample.  On a node whose oscillator has the envelope of the bass
  patch (attack 0), a voice released at time 1 at amplitude 0.4 is retriggered at time
  1.01.  The amplitude present at that moment, \<open>0.4 * (1 - 0.01 / 0.2)\<^sup>2 = 0.361\<close>, is
  stored into \<open>onAmp\<close>, but the envelope of the retriggered voice read at the same time is
  1: with an attack of 0 the attack branch of \<open>getValue\<close>, the only one that reads \<open>onAmp\<close>,
  is never taken, and the envelope does not resume from the amplitude present.
\<close>

theorem processEvent_zero_attack_counterexample:
  "getValue bass_env (101/100) 0 1 0 (2/5) = 361/1000
   \<and> processEvent bass_node (NoteOnEvt 5 (Note 60) (1/2)) (101/100)
     = Inr (bass_node\<lparr>actNotes :=
         [released_voice\<lparr>oscStates := [\<lparr>cyclePos = 0, syncCyclePos = 0, onAmp = 361/1000, offAmp = 2/5\<rparr>],
            filterOnEnv := 1, pitchOnEnv := 1, vel := 1/2, onTime := 101/100, offTime := 0\<rparr>]\<rparr>)
   \<and> getValue bass_env (101/100) (101/100) 0 (361/1000) (2/5) = 1"
proof -
  have 1: "getValue bass_env (101/100) 0 1 0 (2/5) = 361/1000"
    by (simp add: getValue_def bass_env_def OSC_new_def ADSREnv_new_def interp_def Math_pow_def
        power2_eq_square)
  have 2: "processEvent bass_node (NoteOnEvt 5 (Note 60) (1/2)) (101/100)
     = Inr (bass_node\<lparr>actNotes :=
         [released_voice\<lparr>oscStates := [\<lparr>cyclePos = 0, syncCyclePos = 0, onAmp = 361/1000, offAmp = 2/5\<rparr>],
            filterOnEnv := 1, pitchOnEnv := 1, vel := 1/2, onTime := 101/100, offTime := 0\<rparr>]\<rparr>)"
    by (simp add: processEvent_def bass_node_def bass_env_def released_voice_def VAnalog_new_def
        OSC_new_def getValue_def ADSREnv_new_def interp_def Math_pow_def power2_eq_square)
  have 3: "getValue bass_env (101/100) (101/100) 0 (361/1000) (2/5) = 1"
    by (simp add: getValue_def bass_env_def OSC_new_def ADSREnv_new_def interp_def Math_pow_def
        power2_eq_square)
  from 1 2 3 show ?thesis by blast
qed

text \<open>
  Claim C4, as amended.  When \<open>processEvent\<close> receives a NoteOn for a note that has an
  active voice (the first voice \<open>k\<close> of the active list with that note), it replaces that
  voice, and only that voice, by the retriggered voice: each oscillator state's \<open>onAmp\<close> is
  the value of that oscillator's amplitude envelope at the arrival time \<open>t\<close> under the
  voice's previous \<open>onTime\<close>, \<open>offTime\<close>, \<open>onAmp\<close> and \<open>offAmp\<close>; \<open>filterOnEnv\<close> and
  \<open>pitchOnEnv\<close> are the filter and pitch envelope values read the same way; then \<open>onTime\<close>
  is \<open>t\<close>, \<open>offTime\<close> is 0 and the velocity is the event's.  For every envelope whose
  attack time and attack exponent are positive, the new attack resumes from the amplitude
  present at the retrigger: the envelope of the retriggered voice read at \<open>t\<close> is the
  envelope of the previous voice read at \<open>t\<close>.  For an envelope with attack 0, a positive
  decay and a sustain level of at most 1, the envelope of the retriggered voice read at
  \<open>t\<close> is 1, whatever the amplitude present was.  The voice has one oscillator state per
  oscillator of the node, as \<open>processEvent\<close> creates it.
\<close>

theorem processEvent_retrigger_continues_envelope:
  assumes "find_note (actNotes va) n = Some k"
    and "length (oscStates (actNotes va ! k)) = length (oscs va)"
  shows "\<exists>new. processEvent va (NoteOnEvt te n v) t = Inr (va\<lparr>actNotes := (actNotes va)[k := new]\<rparr>)
           \<and> k < length (actNotes va) \<and> vnote (actNotes va ! k) = n
           \<and> retriggered (oscs va) (filterEnv va) (pitchEnv va) t v (actNotes va ! k) new
           \<and> (\<forall>i < length (oscs va). attack_positive (osc_env (oscs va ! i)) \<longrightarrow>
                getValue (osc_env (oscs va ! i)) t (onTime new) (offTime new)
                    (onAmp (oscStates new ! i)) (offAmp (oscStates new ! i))
                = getValue (osc_env (oscs va ! i)) t (onTime (actNotes va ! k))
                    (offTime (actNotes va ! k)) (onAmp (oscStates (actNotes va ! k) ! i))
                    (offAmp (oscStates (actNotes va ! k) ! i)))
           \<and> (attack_positive (filterEnv va) \<longrightarrow>
                getValue (filterEnv va) t (onTime new) (offTime new)
                    (filterOnEnv new) (filterOffEnv new)
                = getValue (filterEnv va) t (onTime (actNotes va ! k))
                    (offTime (actNotes va ! k)) (filterOnEnv (actNotes va ! k))
                    (filterOffEnv (actNotes va ! k)))
           \<and> (attack_positive (pitchEnv va) \<longrightarrow>
                getValue (pitchEnv va) t (onTime new) (offTime new)
                    (pitchOnEnv new) (pitchOffEnv new)
                = getValue (pitchEnv va) t (onTime (actNotes va ! k))
                    (offTime (actNotes va ! k)) (pitchOnEnv (actNotes va ! k))
                    (pitchOffEnv (actNotes va ! k)))
           \<and> (\<forall>i < length (oscs va). env_a (osc_env (oscs va ! i)) = Finite 0
                  \<and> dur_less 0 (env_d (osc_env (oscs va ! i)))
                  \<and> env_s (osc_env (oscs va ! i)) \<le> 1 \<longrightarrow>
                getValue (osc_env (oscs va ! i)) t (onTime new) (offTime new)
                    (onAmp (oscStates new ! i)) (offAmp (oscStates new ! i)) = 1)"
proof -
  let ?old = "actNotes va ! k"
  from assms(2) have "length (oscs va) \<le> length (oscStates ?old)" by simp
  from processEvent_retrigger[OF assms(1) this, of te v t] obtain new where
    p: "processEvent va (NoteOnEvt te n v) t = Inr (va\<lparr>actNotes := (actNotes va)[k := new]\<rparr>)"
    and r: "retriggered (oscs va) (filterEnv va) (pitchEnv va) t v ?old new"
    by blast
  from r have on: "onTime new = t" and off: "offTime new = 0"
    and fe: "filterOnEnv new = getValue (filterEnv va) t (onTime ?old) (offTime ?old)
        (filterOnEnv ?old) (filterOffEnv ?old)"
    and pe: "pitchOnEnv new = getValue (pitchEnv va) t (onTime ?old) (offTime ?old)
        (pitchOnEnv ?old) (pitchOffEnv ?old)"
    and os: "\<forall>i < length (oscs va). onAmp (oscStates new ! i)
        = getValue (osc_env (oscs va ! i)) t (onTime ?old) (offTime ?old)
            (onAmp (oscStates ?old ! i)) (offAmp (oscStates ?old ! i))"
    by (simp_all add: retriggered_def list_all_iff)
  have c1: "\<forall>i < length (oscs va). attack_positive (osc_env (oscs va ! i)) \<longrightarrow>
      getValue (osc_env (oscs va ! i)) t (onTime new) (offTime new)
          (onAmp (oscStates new ! i)) (offAmp (oscStates new ! i))
      = getValue (osc_env (oscs va ! i)) t (onTime ?old) (offTime ?old)
          (onAmp (oscStates ?old ! i)) (offAmp (oscStates ?old ! i))"
    using os by (simp add: on off getValue_at_onset)
  have c2: "attack_positive (filterEnv va) \<longrightarrow>
      getValue (filterEnv va) t (onTime new) (offTime new) (filterOnEnv new) (filterOffEnv new)
      = getValue (filterEnv va) t (onTime ?old) (offTime ?old) (filterOnEnv ?old)
          (filterOffEnv ?old)"
    using fe by (simp add: on off getValue_at_onset)
  have c3: "attack_positive (pitchEnv va) \<longrightarrow>
      getValue (pitchEnv va) t (onTime new) (offTime new) (pitchOnEnv new) (pitchOffEnv new)
      = getValue (pitchEnv va) t (onTime ?old) (offTime ?old) (pitchOnEnv ?old)
          (pitchOffEnv ?old)"
    using pe by (simp add: on off getValue_at_onset)
  have c4: "\<forall>i < length (oscs va). env_a (osc_env (oscs va ! i)) = Finite 0
        \<and> dur_less 0 (env_d (osc_env (oscs va ! i)))
        \<and> env_s (osc_env (oscs va ! i)) \<le> 1 \<longrightarrow>
      getValue (osc_env (oscs va ! i)) t (onTime new) (offTime new)
          (onAmp (oscStates new ! i)) (offAmp (oscStates new ! i)) = 1"
    by (simp add: on off getValue_at_onset_zero_attack)
  from find_note_Some[OF assms(1)] have k: "k < length (actNotes va)" "vnote ?old = n"
    by simp_all
  show ?thesis
    by (rule exI[of _ new]) (intro conjI, rule p, rule k(1), rule k(2), rule r, rule c1,
        rule c2, rule c3, rule c4)
qed

text \<open>
  The witness: with the constructor's envelope (attack 0.05 s, release 0.1 s), a retrigger
  0.01 s into a release that started at amplitude 0.4 stores the amplitude
  \<open>0.4 * (1 - 0.01 / 0.1)\<^sup>2 = 0.324\<close>, and the envelope of the retriggered voice read at
  the retrigger is 0.324, not 0.
\<close>

theorem processEvent_retrigger_continues_envelope_witness:
  "find_note (actNotes released_node) (Note 60) = Some 0
   \<and> length (oscStates (actNotes released_node ! 0)) = length (oscs released_node)
   \<and> processEvent released_node (NoteOnEvt 5 (Note 60) (1/2)) (101/100)
     = Inr (released_node\<lparr>actNotes :=
         [released_voice\<lparr>oscStates := [\<lparr>cyclePos = 0, syncCyclePos = 0, onAmp = 81/250, offAmp = 2/5\<rparr>],
            filterOnEnv := 1, pitchOnEnv := 1, vel := 1/2, onTime := 101/100, offTime := 0\<rparr>]\<rparr>)
   \<and> attack_positive (osc_env (oscs released_node ! 0))
   \<and> getValue (osc_env (oscs released_node ! 0)) (101/100) 0 1 0 (2/5) = 81/250
   \<and> getValue (osc_env (oscs released_node ! 0)) (101/100) (101/100) 0 (81/250) (2/5) = 81/250"
proof -
  have f: "find_note (actNotes released_node) (Note 60) = Some 0"
    by (simp add: released_node_def released_voice_def)
  have l: "length (oscStates (actNotes released_node ! 0)) = length (oscs released_node)"
    by (simp add: released_node_def released_voice_def VAnalog_new_def)
  have p: "processEvent released_node (NoteOnEvt 5 (Note 60) (1/2)) (101/100)
     = Inr (released_node\<lparr>actNotes :=
         [released_voice\<lparr>oscStates := [\<lparr>cyclePos = 0, syncCyclePos = 0, onAmp = 81/250, offAmp = 2/5\<rparr>],
            filterOnEnv := 1, pitchOnEnv := 1, vel := 1/2, onTime := 101/100, offTime := 0\<rparr>]\<rparr>)"
    using processEvent_retrigger_continues_envelope[OF f l, of 5 "1/2" "101/100"]
    by (simp add: processEvent_def released_node_def released_voice_def VAnalog_new_def
        OSC_new_def getValue_def ADSREnv_new_def interp_def Math_pow_def power2_eq_square)
  have a: "attack_positive (osc_env (oscs released_node ! 0))"
    by (simp add: attack_positive_def released_node_def VAnalog_new_def OSC_new_def
        ADSREnv_new_def)
  have g1: "getValue (osc_env (oscs released_node ! 0)) (101/100) 0 1 0 (2/5) = 81/250"
    by (simp add: released_node_def VAnalog_new_def OSC_new_def getValue_def ADSREnv_new_def
        interp_def Math_pow_def power2_eq_square)
  have g2: "getValue (osc_env (oscs released_node ! 0)) (101/100) (101/100) 0 (81/250) (2/5)
      = 81/250"
    by (simp add: released_node_def VAnalog_new_def OSC_new_def getValue_def ADSREnv_new_def
        interp_def Math_pow_def power2_eq_square)
  from f l p a g1 g2 show ?thesis by blast
qed
section \<open>Voice retirement in VAnalog.update\<close>

lemma osc_sample_ok:
  "valid_waveform (osc_type p) \<Longrightarrow> \<exists>smp k'. osc_sample rnd p pos k = Inr (smp, k')"
  by (auto simp: osc_sample_def valid_waveform_def)

lemma genOsc_loop_ok:
  "valid_waveform (osc_type p) \<Longrightarrow> \<exists>r. genOsc_loop rnd p dp sdp idxs st = Inr r"
proof (induction idxs arbitrary: st)
  case Nil
  show ?case by (rule exI[of _ st]) simp
next
  case (Cons i idxs)
  obtain buf pos spos k where st: "st = (buf, pos, spos, k)" by (cases st) auto
  from osc_sample_ok[OF Cons.prems] obtain smp k' where
    s: "osc_sample rnd p pos k = Inr (smp, k')" by blast
  show ?case
    unfolding st using s Cons.IH[OF Cons.prems]
    by (simp add: Let_def)
qed

lemma genOsc_ok:
  assumes "valid_waveform (osc_type p)"
  shows "\<exists>buf pos spos k'. genOsc rnd va time ob p st ns sampleRate k
           = Inr (buf, st\<lparr>cyclePos := pos, syncCyclePos := spos\<rparr>, k')"
proof -
  let ?dp = "getFreq (vnote ns) (detune p + pitchEnvAmt va * getValue (pitchEnv va) time (onTime ns)
            (offTime ns) (pitchOnEnv ns) (pitchOffEnv ns)) / sampleRate"
  let ?sdp = "getFreq (vnote ns) (syncDetune p) / sampleRate"
  from genOsc_loop_ok[OF assms, of rnd ?dp ?sdp "[0..<length ob]" "(ob, cyclePos st, syncCyclePos st, k)"]
  obtain r where r: "genOsc_loop rnd p ?dp ?sdp [0..<length ob] (ob, cyclePos st, syncCyclePos st, k) = Inr r"
    by blast
  obtain buf pos spos k' where "r = (buf, pos, spos, k')" by (cases r) auto
  with r show ?thesis by (auto simp: genOsc_def Let_def)
qed

lemma update_oscs_ok:
  assumes "list_all (\<lambda>p. valid_waveform (osc_type p)) ps" and "length sts = length ps"
  shows "\<exists>sts' ob' nb' k'.
           update_oscs rnd va time endTime sampleRate len ns ps sts (ob, nb, mx, k)
             = Inr (sts', ob', nb', fold max (endAmps ps ns sts endTime) mx, k')
         \<and> list_all2 same_osc sts' sts"
  using assms
proof (induction ps arbitrary: sts ob nb mx k)
  case Nil
  then show ?case by simp
next
  case (Cons p ps)
  from Cons.prems obtain st rest where sts: "sts = st # rest" and l: "length rest = length ps"
    by (cases sts) auto
  from Cons.prems have vp: "valid_waveform (osc_type p)"
    and vps: "list_all (\<lambda>p. valid_waveform (osc_type p)) ps" by simp_all
  from genOsc_ok[OF vp, of rnd va time ob st ns sampleRate k] obtain ob1 pos spos k1 where
    g: "genOsc rnd va time ob p st ns sampleRate k
           = Inr (ob1, st\<lparr>cyclePos := pos, syncCyclePos := spos\<rparr>, k1)" by blast
  let ?st' = "st\<lparr>cyclePos := pos, syncCyclePos := spos\<rparr>"
  let ?ampStart = "(vel ns * volume p) * getValue (osc_env p) time (onTime ns) (offTime ns) (onAmp st) (offAmp st)"
  let ?ampEnd = "(vel ns * volume p) * getValue (osc_env p) endTime (onTime ns) (offTime ns) (onAmp st) (offAmp st)"
  let ?ob2 = "fold (\<lambda>smpIdx b.
                        b[smpIdx := b ! smpIdx
                           * (?ampStart + (real smpIdx / (real len - 1)) * (?ampEnd - ?ampStart))])
                      [0..<len] ob1"
  let ?nb' = "fold (\<lambda>smpIdx b. b[smpIdx := b ! smpIdx + ?ob2 ! smpIdx]) [0..<len] nb"
  from Cons.IH[OF vps l, of ?ob2 ?nb' "max mx ?ampEnd" k1] obtain sts' ob' nb'' k' where
    r: "update_oscs rnd va time endTime sampleRate len ns ps rest (?ob2, ?nb', max mx ?ampEnd, k1)
             = Inr (sts', ob', nb'', fold max (endAmps ps ns rest endTime) (max mx ?ampEnd), k')"
    and s: "list_all2 same_osc sts' rest" by blast
  have "update_oscs rnd va time endTime sampleRate len ns (p # ps) sts (ob, nb, mx, k)
      = Inr (?st' # sts', ob', nb'', fold max (endAmps (p # ps) ns sts endTime) mx, k')"
    unfolding sts using g r by (simp add: Let_def max.commute)
  moreover have "list_all2 same_osc (?st' # sts') sts"
    unfolding sts using s by (simp add: same_osc_def)
  ultimately show ?case by blast
qed

lemma applyFilter_ok:
  assumes "0 \<le> cutoff va" "cutoff va \<le> 1" "0 \<le> resonance va" "resonance va \<le> 1"
  shows "\<exists>fs buf'. applyFilter va time ns buf = Inr (ns\<lparr>filterSt := fs\<rparr>, buf')"
  using assms by (auto simp: applyFilter_def Let_def split: prod.splits)


lemma update_notes_ok:
  assumes v: "list_all (\<lambda>p. valid_waveform (osc_type p)) (oscs va)"
    and l: "list_all (\<lambda>n. length (oscStates n) = length (oscs va)) vs"
    and c: "0 \<le> cutoff va" "cutoff va \<le> 1" "0 \<le> resonance va" "resonance va \<le> 1"
  shows "\<exists>kept r. update_notes rnd va time endTime sampleRate len vs acc = Inr (kept, r)
           \<and> list_all2 same_voice kept (filter (\<lambda>n. maxEndAmp_of va endTime n \<noteq> 0) vs)"
  using l
proof (induction vs arbitrary: acc)
  case Nil
  show ?case by (intro exI[of _ "[]"] exI[of _ acc]) simp
next
  case (Cons n vs)
  obtain outB ob nb k where acc: "acc = (outB, ob, nb, k)" by (cases acc) auto
  from Cons.prems have ln: "length (oscStates n) = length (oscs va)"
    and lr: "list_all (\<lambda>n. length (oscStates n) = length (oscs va)) vs" by simp_all
  let ?nb0 = "fold (\<lambda>smpIdx b. b[smpIdx := 0]) [0..<len] nb"
  from update_oscs_ok[OF v ln, of rnd va time endTime sampleRate len n ob ?nb0 0 k]
  obtain sts' ob' nb1 k' where
    o: "update_oscs rnd va time endTime sampleRate len n (oscs va) (oscStates n) (ob, ?nb0, 0, k)
          = Inr (sts', ob', nb1, maxEndAmp_of va endTime n, k')"
    and so: "list_all2 same_osc sts' (oscStates n)"
    unfolding maxEndAmp_of_def by blast
  from applyFilter_ok[OF c, of time "n\<lparr>oscStates := sts'\<rparr>" nb1] obtain fs nb2 where
    f: "applyFilter va time (n\<lparr>oscStates := sts'\<rparr>) nb1
          = Inr (n\<lparr>oscStates := sts', filterSt := fs\<rparr>, nb2)" by auto
  let ?n' = "n\<lparr>oscStates := sts', filterSt := fs\<rparr>"
  let ?outB' = "fold (\<lambda>smpIdx b. b[smpIdx := b ! smpIdx + nb2 ! smpIdx]) [0..<len] outB"
  from Cons.IH[OF lr, of "(?outB', ob', nb2, k')"] obtain kept r where
    u: "update_notes rnd va time endTime sampleRate len vs (?outB', ob', nb2, k') = Inr (kept, r)"
    and sk: "list_all2 same_voice kept (filter (\<lambda>n. maxEndAmp_of va endTime n \<noteq> 0) vs)"
    by blast
  have sv: "same_voice ?n' n" using so by (simp add: same_voice_def)
  have "update_notes rnd va time endTime sampleRate len (n # vs) acc
      = Inr (if maxEndAmp_of va endTime n = 0 then kept else ?n' # kept, r)"
    unfolding acc using o f u by (simp add: Let_def)
  moreover have "list_all2 same_voice (if maxEndAmp_of va endTime n = 0 then kept else ?n' # kept)
      (filter (\<lambda>n. maxEndAmp_of va endTime n \<noteq> 0) (n # vs))"
    using sk sv by simp
  ultimately show ?case by blast
qed

lemma update_ok:
  assumes "update_ready h va"
  shows "\<exists>va' h' k'. update rnd time sampleRate (va, h, k) = Inr (va', h', k')
           \<and> list_all2 same_voice (actNotes va')
                (filter (\<lambda>n. maxEndAmp_of va (block_endTime h va time sampleRate) n \<noteq> 0)
                   (actNotes va))
           \<and> oscs va' = oscs va"
proof (cases "actNotes va = []")
  case True
  then show ?thesis by (simp add: update_def)
next
  case False
  let ?out = "outputs h (va_output va)"
  let ?outBuf = "buffers ?out ! 0"
  from assms have v: "list_all (\<lambda>p. valid_waveform (osc_type p)) (oscs va)"
    and l: "list_all (\<lambda>n. length (oscStates n) = length (oscs va)) (actNotes va)"
    and c: "0 \<le> cutoff va" "cutoff va \<le> 1" "0 \<le> resonance va" "resonance va \<le> 1"
    and b: "0 < length (buffers ?out)"
    by (simp_all add: update_ready_def)
  have g: "SynthOutput_getBuffer ?out (Some 0) = (Inr (Some ?outBuf), ?out\<lparr>hasData := True\<rparr>)"
    using b by (simp add: SynthOutput_getBuffer_def Let_def)
  let ?len = "length ?outBuf"
  let ?endTime = "time + ((real ?len - 1) / sampleRate)"
  let ?outBuf0 = "fold (\<lambda>i b. b[i := 0]) [0..<?len] ?outBuf"
  from update_notes_ok[OF v l c, of rnd time ?endTime sampleRate ?len
      "(?outBuf0, oscBuf va, noteBuf va, k)"]
  obtain kept r where
    u: "update_notes rnd va time ?endTime sampleRate ?len (actNotes va)
          (?outBuf0, oscBuf va, noteBuf va, k) = Inr (kept, r)"
    and sk: "list_all2 same_voice kept
          (filter (\<lambda>n. maxEndAmp_of va ?endTime n \<noteq> 0) (actNotes va))"
    by blast
  obtain outB ob nb k' where r: "r = (outB, ob, nb, k')" by (cases r) auto
  have "update rnd time sampleRate (va, h, k)
      = Inr (va\<lparr>actNotes := kept, oscBuf := ob, noteBuf := nb\<rparr>,
             h\<lparr>outputs := (outputs h)
                 (va_output va := (?out\<lparr>hasData := True\<rparr>)
                    \<lparr>buffers := (buffers (?out\<lparr>hasData := True\<rparr>))[0 := outB]\<rparr>)\<rparr>, k')"
    using False g u r by (simp add: update_def Let_def)
  with sk show ?thesis by (auto simp: block_endTime_def)
qed


lemma fold_max_zero: "fold max xs (0::real) = 0 \<longleftrightarrow> (\<forall>x\<in>set xs. x \<le> 0)"
proof -
  have "fold max xs (0::real) = Max (set (0 # xs))" by (simp only: Max.set_eq_fold)
  also have "\<dots> = 0 \<longleftrightarrow> (\<forall>x\<in>set xs. x \<le> 0)"
  proof
    assume "Max (set (0 # xs)) = 0"
    then show "\<forall>x\<in>set xs. x \<le> 0"
      by (metis List.finite_set Max_ge list.set_intros(2))
  next
    assume a: "\<forall>x\<in>set xs. x \<le> 0"
    show "Max (set (0 # xs)) = 0"
      by (rule Max_eqI) (use a in auto)
  qed
  finally show ?thesis .
qed

lemma pos_mult_nonpos_iff: "0 < (c::real) \<Longrightarrow> 0 \<le> e \<Longrightarrow> c * e \<le> 0 \<longleftrightarrow> e = 0"
  by (auto simp: mult_le_0_iff)

lemma endAmps_nonpos_iff:
  assumes "0 < vel n" and "list_all (\<lambda>p. 0 < volume p) ps"
    and "list_all (\<lambda>x. 0 \<le> x) (endEnvs ps n sts T)"
  shows "(\<forall>x\<in>set (endAmps ps n sts T). x \<le> 0) \<longleftrightarrow> list_all (\<lambda>x. x = 0) (endEnvs ps n sts T)"
  using assms
proof (induction ps n sts T rule: endAmps.induct)
  case (1 p ps noteState st sts endTime)
  let ?e = "getValue (osc_env p) endTime (onTime noteState) (offTime noteState) (onAmp st) (offAmp st)"
  from 1 have pos: "0 < vel noteState * volume p" and e: "0 \<le> ?e" by simp_all
  have "(vel noteState * volume p) * ?e \<le> 0 \<longleftrightarrow> ?e = 0"
    using pos e by (rule pos_mult_nonpos_iff)
  with 1 show ?case by simp
qed simp_all

text \<open>
  Claim C7, the counterexample.  A held voice of velocity 0 on a node with the
  constructor's oscillator: at the end of the block that starts at time 1 the envelope of
  its only oscillator is at the sustain level 0.2, a strictly positive maximum, and the
  update removes the voice all the same, because the amplitude that the update compares
  with 0 is the envelope value scaled by velocity and oscillator volume.
\<close>

theorem update_zero_velocity_counterexample:
  "endEnvs (oscs zero_vel_node) zero_vel_voice (oscStates zero_vel_voice)
      (block_endTime heap_new zero_vel_node 1 44100) = [1/5]
   \<and> map vnote (actNotes zero_vel_node) = [Note 60]
   \<and> notes_after (update rnd_zero 1 44100 (zero_vel_node, heap_new, 0)) = Inr []"
proof -
  have r: "update_ready heap_new zero_vel_node"
    by (simp add: update_ready_def zero_vel_node_def zero_vel_voice_def VAnalog_new_def
        OSC_new_def valid_waveform_def heap_new_def SynthOutput_new_def)
  have m: "maxEndAmp_of zero_vel_node (block_endTime heap_new zero_vel_node 1 44100)
      zero_vel_voice = 0"
    by (simp add: maxEndAmp_of_def zero_vel_node_def zero_vel_voice_def VAnalog_new_def
        OSCState_new_def)
  from update_ok[OF r, of rnd_zero 1 44100 0] m
  have "notes_after (update rnd_zero 1 44100 (zero_vel_node, heap_new, 0)) = Inr []"
    by (auto simp: notes_after_def zero_vel_node_def)
  moreover have "endEnvs (oscs zero_vel_node) zero_vel_voice (oscStates zero_vel_voice)
      (block_endTime heap_new zero_vel_node 1 44100) = [1/5]"
    by (simp add: zero_vel_node_def zero_vel_voice_def VAnalog_new_def OSC_new_def
        OSCState_new_def block_endTime_def heap_new_def SynthOutput_new_def
        SYNTH_BUF_SIZE_def getValue_def ADSREnv_new_def)
  moreover have "map vnote (actNotes zero_vel_node) = [Note 60]"
    by (simp add: zero_vel_node_def zero_vel_voice_def)
  ultimately show ?thesis by blast
qed

text \<open>
  Claim C7, as amended.  For a node on which no statement of the update throws, the
  update returns, and the active list after it is, voice by voice and in order, the list
  of the voices before it whose \<open>maxEndAmp\<close> is not 0 (each changed only in \<open>cyclePos\<close>,
  \<open>syncCyclePos\<close> and \<open>filterSt\<close>): a voice is removed if and only if the maximum of 0
  and of the end-of-block amplitudes of its oscillators is exactly 0, where the amplitude of
  an oscillator is velocity times oscillator volume times envelope value at the end of the
  block.  For a voice of positive velocity on oscillators of positive volume whose envelope
  values are not negative, that is the case if and only if every envelope value is 0.
\<close>

theorem update_retires_voice:
  assumes "update_ready h va"
  shows "(\<exists>va' h' k'. update rnd time sampleRate (va, h, k) = Inr (va', h', k')
           \<and> list_all2 same_voice (actNotes va')
                (filter (\<lambda>n. maxEndAmp_of va (block_endTime h va time sampleRate) n \<noteq> 0)
                   (actNotes va)))
       \<and> maxEndAmp_of va T n = Max (set (0 # endAmps (oscs va) n (oscStates n) T))
       \<and> (0 < vel n \<and> list_all (\<lambda>p. 0 < volume p) (oscs va)
            \<and> list_all (\<lambda>x. 0 \<le> x) (endEnvs (oscs va) n (oscStates n) T)
          \<longrightarrow> (maxEndAmp_of va T n = 0
                 \<longleftrightarrow> list_all (\<lambda>x. x = 0) (endEnvs (oscs va) n (oscStates n) T)))"
proof -
  have 1: "\<exists>va' h' k'. update rnd time sampleRate (va, h, k) = Inr (va', h', k')
           \<and> list_all2 same_voice (actNotes va')
                (filter (\<lambda>n. maxEndAmp_of va (block_endTime h va time sampleRate) n \<noteq> 0)
                   (actNotes va))"
    using update_ok[OF assms, of rnd time sampleRate k] by blast
  have 2: "maxEndAmp_of va T n = Max (set (0 # endAmps (oscs va) n (oscStates n) T))"
    by (simp only: maxEndAmp_of_def Max.set_eq_fold)
  have 3: "0 < vel n \<and> list_all (\<lambda>p. 0 < volume p) (oscs va)
            \<and> list_all (\<lambda>x. 0 \<le> x) (endEnvs (oscs va) n (oscStates n) T)
          \<longrightarrow> (maxEndAmp_of va T n = 0
                 \<longleftrightarrow> list_all (\<lambda>x. x = 0) (endEnvs (oscs va) n (oscStates n) T))"
    using endAmps_nonpos_iff[of n "oscs va" "oscStates n" T]
    by (simp add: maxEndAmp_of_def fold_max_zero)
  from 1 2 3 show ?thesis by (intro conjI)
qed

text \<open>
  The witness: the voice released at time 1 from amplitude 0.4 with a release of 0.1 s is
  kept by the update of the block that starts at time 1, and removed by the update of the
  block that starts at time 2.
\<close>

theorem update_retires_voice_witness:
  "update_ready heap_new released_node
   \<and> notes_after (update rnd_zero 1 44100 (released_node, heap_new, 0)) = Inr [Note 60]
   \<and> notes_after (update rnd_zero 2 44100 (released_node, heap_new, 0)) = Inr []"
proof -
  have r: "update_ready heap_new released_node"
    by (simp add: update_ready_def released_node_def released_voice_def VAnalog_new_def
        OSC_new_def valid_waveform_def heap_new_def SynthOutput_new_def)
  have m1: "maxEndAmp_of released_node (block_endTime heap_new released_node 1 44100)
      released_voice \<noteq> 0"
    by (simp add: maxEndAmp_of_def released_node_def released_voice_def VAnalog_new_def
        OSC_new_def block_endTime_def heap_new_def SynthOutput_new_def SYNTH_BUF_SIZE_def
        getValue_def ADSREnv_new_def interp_def Math_pow_def)
  have m2: "maxEndAmp_of released_node (block_endTime heap_new released_node 2 44100)
      released_voice = 0"
    by (simp add: maxEndAmp_of_def released_node_def released_voice_def VAnalog_new_def
        OSC_new_def block_endTime_def heap_new_def SynthOutput_new_def SYNTH_BUF_SIZE_def
        getValue_def ADSREnv_new_def interp_def Math_pow_def)
  from update_retires_voice[OF r, of rnd_zero 1 44100 0, THEN conjunct1] m1
  have a: "notes_after (update rnd_zero 1 44100 (released_node, heap_new, 0)) = Inr [Note 60]"
    by (auto simp: notes_after_def released_node_def same_voice_def released_voice_def
        list_all2_Cons2)
  from update_retires_voice[OF r, of rnd_zero 2 44100 0, THEN conjunct1] m2
  have b: "notes_after (update rnd_zero 2 44100 (released_node, heap_new, 0)) = Inr []"
    by (auto simp: notes_after_def released_node_def)
  from r a b show ?thesis by blast
qed

section \<open>The render handler at the loop time\<close>

lemma dispatch_tracks_windows:
  "list_all events_sorted trs \<Longrightarrow>
   dispatch_tracks pe trs prevT curT realT w = process_windows pe trs prevT curT realT w"
proof (induction trs arbitrary: w)
  case Nil
  then show ?case by simp
next
  case (Cons tr trs)
  then have s: "events_sorted tr" and r: "list_all events_sorted trs" by simp_all
  show ?case
  proof (cases "target tr")
    case None
    then have "Track_dispatch pe tr prevT curT realT w = Inr w"
      by (simp add: Track_dispatch_def)
    with None Cons.IH[OF r] show ?thesis by simp
  next
    case (Some tgt)
    from Track_dispatch_window[OF s Some, of pe prevT curT realT w] Some Cons.IH[OF r]
    show ?thesis by (simp split: sum.splits)
  qed
qed

lemma Piece_dispatch_windows:
  "list_all events_sorted (tracks piece) \<Longrightarrow>
   Piece_dispatch pe piece curT realT w =
     (case process_windows pe (tracks piece) (prevTime piece) curT realT w of
        Inl e \<Rightarrow> Inl e
      | Inr w' \<Rightarrow> Inr (piece\<lparr>prevTime := curT\<rparr>, w'))"
  by (simp add: Piece_dispatch_def dispatch_tracks_windows)

lemma genAudio_block_crossing:
  assumes srt: "list_all events_sorted (tracks piece)"
    and "playTime piece \<le> loopTime piece"
    and "loopTime piece < curT + real SYNTH_BUF_SIZE / sampleRate"
  shows "genAudio_block pe gen sampleRate (piece, curT, realT, w) =
     (case process_windows pe (tracks piece) (prevTime piece) curT realT w of
        Inl e \<Rightarrow> Inl e
      | Inr w1 \<Rightarrow>
          (case gen realT w1 of
             Inl e \<Rightarrow> Inl e
           | Inr w2 \<Rightarrow>
               (case process_windows pe (tracks piece) curT (loopTime piece + 0.01)
                       (realT + real SYNTH_BUF_SIZE / sampleRate) w2 of
                  Inl e \<Rightarrow> Inl e
                | Inr w3 \<Rightarrow>
                    Inr (piece\<lparr>prevTime := 0, playTime := 0\<rparr>, 0,
                         realT + real SYNTH_BUF_SIZE / sampleRate, w3))))"
proof -
  have srt': "list_all events_sorted (tracks (piece\<lparr>prevTime := curT\<rparr>))" using srt by simp
  show ?thesis
    using assms(2,3)
    by (simp add: genAudio_block_def Piece_dispatch_windows[OF srt]
        Piece_dispatch_windows[OF srt'] Let_def split: sum.splits)
qed

lemma genAudio_block_no_crossing:
  assumes srt: "list_all events_sorted (tracks piece)"
    and "\<not> (playTime piece \<le> loopTime piece
            \<and> loopTime piece < curT + real SYNTH_BUF_SIZE / sampleRate)"
  shows "genAudio_block pe gen sampleRate (piece, curT, realT, w) =
     (case process_windows pe (tracks piece) (prevTime piece) curT realT w of
        Inl e \<Rightarrow> Inl e
      | Inr w1 \<Rightarrow>
          (case gen realT w1 of
             Inl e \<Rightarrow> Inl e
           | Inr w2 \<Rightarrow>
               Inr (piece\<lparr>prevTime := curT, playTime := curT + real SYNTH_BUF_SIZE / sampleRate\<rparr>,
                    curT + real SYNTH_BUF_SIZE / sampleRate,
                    realT + real SYNTH_BUF_SIZE / sampleRate, w2)))"
  using assms(2)
  by (auto simp add: genAudio_block_def Piece_dispatch_windows[OF srt] Let_def split: sum.splits)

lemma process_windows_log:
  "process_windows log_event trs prevT curT realT calls
     = Inr (calls @ window_calls trs prevT curT realT)"
  by (induction trs arbitrary: calls)
    (simp_all add: window_calls_def track_calls_def process_all_log split: option.splits)

lemma window_calls_mem:
  assumes "tr \<in> set trs" and "target tr = Some tgt" and "e \<in> set (events tr)"
    and "prevT \<le> evt_time e" and "evt_time e < curT"
  shows "(tgt, e, realT) \<in> set (window_calls trs prevT curT realT)"
  using assms
  by (auto simp: window_calls_def track_calls_def window_events_def in_dispatch_window_def
      intro!: bexI[of _ tr])


lemma genAudio_block_log:
  assumes srt: "list_all events_sorted (tracks p)"
  shows "genAudio_block log_event gen_silent sampleRate (p, ct, rt, calls) =
     Inr (if playTime p \<le> loopTime p \<and> loopTime p < ct + real SYNTH_BUF_SIZE / sampleRate
          then (p\<lparr>prevTime := 0, playTime := 0\<rparr>, 0, rt + real SYNTH_BUF_SIZE / sampleRate,
                (calls @ window_calls (tracks p) (prevTime p) ct rt)
                  @ window_calls (tracks p) ct (loopTime p + 0.01)
                      (rt + real SYNTH_BUF_SIZE / sampleRate))
          else (p\<lparr>prevTime := ct, playTime := ct + real SYNTH_BUF_SIZE / sampleRate\<rparr>,
                ct + real SYNTH_BUF_SIZE / sampleRate, rt + real SYNTH_BUF_SIZE / sampleRate,
                calls @ window_calls (tracks p) (prevTime p) ct rt))"
proof (cases "playTime p \<le> loopTime p \<and> loopTime p < ct + real SYNTH_BUF_SIZE / sampleRate")
  case True
  then have c: "playTime p \<le> loopTime p" "loopTime p < ct + real SYNTH_BUF_SIZE / sampleRate"
    by simp_all
  show ?thesis
    unfolding if_P[OF True] genAudio_block_crossing[OF srt c]
    by (simp add: process_windows_log gen_silent_def)
next
  case False
  show ?thesis
    unfolding if_not_P[OF False] genAudio_block_no_crossing[OF srt False]
    by (simp add: process_windows_log gen_silent_def)
qed

lemma genAudio_block_log_grows:
  assumes srt: "list_all events_sorted (tracks p)"
  shows "\<exists>p' ct' rt' calls'.
           genAudio_block log_event gen_silent sampleRate (p, ct, rt, calls)
             = Inr (p', ct', rt', calls')
         \<and> set calls \<subseteq> set calls'
         \<and> set (window_calls (tracks p) (prevTime p) ct rt) \<subseteq> set calls'"
proof (cases "playTime p \<le> loopTime p \<and> loopTime p < ct + real SYNTH_BUF_SIZE / sampleRate")
  case True
  show ?thesis
    unfolding genAudio_block_log[OF srt] if_P[OF True] by auto
next
  case False
  show ?thesis
    unfolding genAudio_block_log[OF srt] if_not_P[OF False] by auto
qed

lemma genAudio_blocks_fires_again:
  assumes srt: "list_all events_sorted (tracks piece)"
    and sr: "0 < sampleRate" and lt: "0 \<le> loopTime piece"
    and tr: "tr \<in> set (tracks piece)" and tgt: "target tr = Some tgt"
    and e: "e \<in> set (events tr)" and e0: "evt_time e = 0"
  shows "\<exists>p' ct rt' calls'.
           genAudio_blocks log_event gen_silent sampleRate 2
             (piece\<lparr>prevTime := 0, playTime := 0\<rparr>, 0, rt, calls) = Inr (p', ct, rt', calls')
         \<and> (tgt, e, rt + real SYNTH_BUF_SIZE / sampleRate) \<in> set calls'"
proof -
  let ?dt = "real SYNTH_BUF_SIZE / sampleRate"
  let ?p0 = "piece\<lparr>prevTime := 0, playTime := 0\<rparr>"
  have dt: "0 < ?dt" using sr by (simp add: SYNTH_BUF_SIZE_def)
  have srt0: "list_all events_sorted (tracks ?p0)" using srt by simp
  show ?thesis
  proof (cases "playTime ?p0 \<le> loopTime ?p0 \<and> loopTime ?p0 < 0 + ?dt")
    case True
    let ?c1 = "(calls @ window_calls (tracks ?p0) (prevTime ?p0) 0 rt)
                  @ window_calls (tracks ?p0) 0 (loopTime ?p0 + 0.01) (rt + ?dt)"
    have b1: "genAudio_block log_event gen_silent sampleRate (?p0, 0, rt, calls)
        = Inr (?p0\<lparr>prevTime := 0, playTime := 0\<rparr>, 0, rt + ?dt, ?c1)"
      unfolding genAudio_block_log[OF srt0] if_P[OF True] ..
    have "(tgt, e, rt + ?dt) \<in> set (window_calls (tracks piece) 0 (loopTime piece + 0.01) (rt + ?dt))"
      using e0 lt by (intro window_calls_mem[OF tr tgt e]) simp_all
    then have m: "(tgt, e, rt + ?dt) \<in> set ?c1" by simp
    have srt1: "list_all events_sorted (tracks (?p0\<lparr>prevTime := 0, playTime := 0\<rparr>))"
      using srt by simp
    from genAudio_block_log_grows[OF srt1, of sampleRate 0 "rt + ?dt" ?c1]
    obtain p' ct rt' calls' where b2:
      "genAudio_block log_event gen_silent sampleRate
         (?p0\<lparr>prevTime := 0, playTime := 0\<rparr>, 0, rt + ?dt, ?c1) = Inr (p', ct, rt', calls')"
      and sub: "set ?c1 \<subseteq> set calls'"
      by blast
    have "genAudio_blocks log_event gen_silent sampleRate 2 (?p0, 0, rt, calls)
        = Inr (p', ct, rt', calls')"
      using b1 b2 by (simp add: numeral_2_eq_2)
    with m sub show ?thesis by blast
  next
    case False
    let ?p1 = "?p0\<lparr>prevTime := 0, playTime := 0 + ?dt\<rparr>"
    let ?c1 = "calls @ window_calls (tracks ?p0) (prevTime ?p0) 0 rt"
    have b1: "genAudio_block log_event gen_silent sampleRate (?p0, 0, rt, calls)
        = Inr (?p1, 0 + ?dt, rt + ?dt, ?c1)"
      unfolding genAudio_block_log[OF srt0] if_not_P[OF False] ..
    have srt1: "list_all events_sorted (tracks ?p1)" using srt by simp
    have "(tgt, e, rt + ?dt) \<in> set (window_calls (tracks piece) 0 (0 + ?dt) (rt + ?dt))"
      using e0 dt by (intro window_calls_mem[OF tr tgt e]) simp_all
    then have m: "(tgt, e, rt + ?dt)
        \<in> set (window_calls (tracks ?p1) (prevTime ?p1) (0 + ?dt) (rt + ?dt))" by simp
    from genAudio_block_log_grows[OF srt1, of sampleRate "0 + ?dt" "rt + ?dt" ?c1]
    obtain p' ct rt' calls' where b2:
      "genAudio_block log_event gen_silent sampleRate (?p1, 0 + ?dt, rt + ?dt, ?c1)
         = Inr (p', ct, rt', calls')"
      and sub: "set (window_calls (tracks ?p1) (prevTime ?p1) (0 + ?dt) (rt + ?dt)) \<subseteq> set calls'"
      by blast
    have "genAudio_blocks log_event gen_silent sampleRate 2 (?p0, 0, rt, calls)
        = Inr (p', ct, rt', calls')"
      using b1 b2 by (simp add: numeral_2_eq_2)
    with m sub show ?thesis by blast
  qed
qed


lemma window_calls_times:
  assumes "(tgt, e, t) \<in> set (window_calls trs prevT curT realT)"
  shows "prevT \<le> evt_time e \<and> evt_time e < curT \<and> t = realT"
  using assms
  by (auto simp: window_calls_def track_calls_def window_events_def in_dispatch_window_def
      split: option.splits)

text \<open>
  Claim C5.  For a piece with sorted tracks and a loop time that is not negative, rendered
  at a positive sample rate: when the playback time of the piece is at or before the loop
  time and the time advanced by one block is strictly after it, the block of the handler
  (1) dispatches the window from the previous dispatch time to the current time, generates
  the audio, then dispatches, at the advanced real time, every event from the current time
  up to, but excluding, the loop time plus 0.01, and ends with the playback time, the
  current time and the previous dispatch time at 0; (2) on a target that records its
  calls this is the record shown; (3) the flushed calls are exactly within that window and
  contain every event from the current time up to and including the loop time; (4) an event
  at time 0 is dispatched again within the next two blocks.
\<close>

theorem genAudio_block_loop_wraps:
  assumes "list_all events_sorted (tracks piece)"
    and "playTime piece \<le> loopTime piece"
    and "loopTime piece < curT + real SYNTH_BUF_SIZE / sampleRate"
    and "0 < sampleRate" and "0 \<le> loopTime piece"
  shows "(genAudio_block pe gen sampleRate (piece, curT, realT, w) =
     (case process_windows pe (tracks piece) (prevTime piece) curT realT w of
        Inl e \<Rightarrow> Inl e
      | Inr w1 \<Rightarrow>
          (case gen realT w1 of
             Inl e \<Rightarrow> Inl e
           | Inr w2 \<Rightarrow>
               (case process_windows pe (tracks piece) curT (loopTime piece + 0.01)
                       (realT + real SYNTH_BUF_SIZE / sampleRate) w2 of
                  Inl e \<Rightarrow> Inl e
                | Inr w3 \<Rightarrow>
                    Inr (piece\<lparr>prevTime := 0, playTime := 0\<rparr>, 0,
                         realT + real SYNTH_BUF_SIZE / sampleRate, w3)))))
    \<and> (genAudio_block log_event gen_silent sampleRate (piece, curT, realT, calls) =
       Inr (piece\<lparr>prevTime := 0, playTime := 0\<rparr>, 0, realT + real SYNTH_BUF_SIZE / sampleRate,
            (calls @ window_calls (tracks piece) (prevTime piece) curT realT)
              @ window_calls (tracks piece) curT (loopTime piece + 0.01)
                  (realT + real SYNTH_BUF_SIZE / sampleRate)))
    \<and> ((tgt', e', t') \<in> set (window_calls (tracks piece) curT (loopTime piece + 0.01)
              (realT + real SYNTH_BUF_SIZE / sampleRate))
         \<longrightarrow> curT \<le> evt_time e' \<and> evt_time e' < loopTime piece + 0.01)
    \<and> (tr \<in> set (tracks piece) \<and> target tr = Some tgt \<and> e \<in> set (events tr)
           \<and> curT \<le> evt_time e \<and> evt_time e \<le> loopTime piece
         \<longrightarrow> (tgt, e, realT + real SYNTH_BUF_SIZE / sampleRate)
              \<in> set (window_calls (tracks piece) curT (loopTime piece + 0.01)
                      (realT + real SYNTH_BUF_SIZE / sampleRate)))
    \<and> (tr \<in> set (tracks piece) \<and> target tr = Some tgt \<and> e \<in> set (events tr)
           \<and> evt_time e = 0
         \<longrightarrow> (\<exists>p' ct rt' calls'.
               genAudio_blocks log_event gen_silent sampleRate 2
                 (piece\<lparr>prevTime := 0, playTime := 0\<rparr>, 0,
                  realT + real SYNTH_BUF_SIZE / sampleRate, calls) = Inr (p', ct, rt', calls')
             \<and> (tgt, e, realT + real SYNTH_BUF_SIZE / sampleRate
                          + real SYNTH_BUF_SIZE / sampleRate) \<in> set calls'))"
proof -
  have p1: "genAudio_block pe gen sampleRate (piece, curT, realT, w) =
     (case process_windows pe (tracks piece) (prevTime piece) curT realT w of
        Inl e \<Rightarrow> Inl e
      | Inr w1 \<Rightarrow>
          (case gen realT w1 of
             Inl e \<Rightarrow> Inl e
           | Inr w2 \<Rightarrow>
               (case process_windows pe (tracks piece) curT (loopTime piece + 0.01)
                       (realT + real SYNTH_BUF_SIZE / sampleRate) w2 of
                  Inl e \<Rightarrow> Inl e
                | Inr w3 \<Rightarrow>
                    Inr (piece\<lparr>prevTime := 0, playTime := 0\<rparr>, 0,
                         realT + real SYNTH_BUF_SIZE / sampleRate, w3))))"
    by (rule genAudio_block_crossing[OF assms(1-3)])
  have c: "playTime piece \<le> loopTime piece
           \<and> loopTime piece < curT + real SYNTH_BUF_SIZE / sampleRate"
    using assms(2,3) by simp
  have p2: "genAudio_block log_event gen_silent sampleRate (piece, curT, realT, calls) =
       Inr (piece\<lparr>prevTime := 0, playTime := 0\<rparr>, 0, realT + real SYNTH_BUF_SIZE / sampleRate,
            (calls @ window_calls (tracks piece) (prevTime piece) curT realT)
              @ window_calls (tracks piece) curT (loopTime piece + 0.01)
                  (realT + real SYNTH_BUF_SIZE / sampleRate))"
    unfolding genAudio_block_log[OF assms(1)] if_P[OF c] ..
  have p3: "(tgt', e', t') \<in> set (window_calls (tracks piece) curT (loopTime piece + 0.01)
              (realT + real SYNTH_BUF_SIZE / sampleRate))
         \<longrightarrow> curT \<le> evt_time e' \<and> evt_time e' < loopTime piece + 0.01"
    by (auto dest: window_calls_times)
  have p4: "tr \<in> set (tracks piece) \<and> target tr = Some tgt \<and> e \<in> set (events tr)
           \<and> curT \<le> evt_time e \<and> evt_time e \<le> loopTime piece
         \<longrightarrow> (tgt, e, realT + real SYNTH_BUF_SIZE / sampleRate)
              \<in> set (window_calls (tracks piece) curT (loopTime piece + 0.01)
                      (realT + real SYNTH_BUF_SIZE / sampleRate))"
  proof
    assume a: "tr \<in> set (tracks piece) \<and> target tr = Some tgt \<and> e \<in> set (events tr)
           \<and> curT \<le> evt_time e \<and> evt_time e \<le> loopTime piece"
    then have "evt_time e < loopTime piece + 0.01" by simp
    with a show "(tgt, e, realT + real SYNTH_BUF_SIZE / sampleRate)
              \<in> set (window_calls (tracks piece) curT (loopTime piece + 0.01)
                      (realT + real SYNTH_BUF_SIZE / sampleRate))"
      by (intro window_calls_mem[of tr]) simp_all
  qed
  have p5: "tr \<in> set (tracks piece) \<and> target tr = Some tgt \<and> e \<in> set (events tr)
           \<and> evt_time e = 0
         \<longrightarrow> (\<exists>p' ct rt' calls'.
               genAudio_blocks log_event gen_silent sampleRate 2
                 (piece\<lparr>prevTime := 0, playTime := 0\<rparr>, 0,
                  realT + real SYNTH_BUF_SIZE / sampleRate, calls) = Inr (p', ct, rt', calls')
             \<and> (tgt, e, realT + real SYNTH_BUF_SIZE / sampleRate
                          + real SYNTH_BUF_SIZE / sampleRate) \<in> set calls')"
    using genAudio_blocks_fires_again[OF assms(1,4,5)] by blast
  show ?thesis
    by (intro conjI) (rule p1, rule p2, rule p3, rule p4, rule p5)
qed

text \<open>
  The witness: loop time 2.0 and a block that goes from 1.9 to 2.1 (256 samples at
  1280 Hz).  The events at 1.95 and 2.0 are flushed, the times are reset to 0, and the
  event at time 0 is dispatched again within the next two blocks.
\<close>

theorem genAudio_block_loop_wraps_witness:
  "genAudio_block log_event gen_silent 1280 (loop_example, 19/10, 10, [])
     = Inr (loop_example\<lparr>prevTime := 0, playTime := 0\<rparr>, 0, 51/5,
            [(3, NoteOffEvt (39/20) (Note 60), 51/5), (3, NoteOnEvt 2 (Note 62) 1, 51/5)])
   \<and> (\<exists>p' ct rt' calls'.
        genAudio_blocks log_event gen_silent 1280 2
          (loop_example\<lparr>prevTime := 0, playTime := 0\<rparr>, 0, 51/5,
           [(3, NoteOffEvt (39/20) (Note 60), 51/5), (3, NoteOnEvt 2 (Note 62) 1, 51/5)])
          = Inr (p', ct, rt', calls')
      \<and> (3, NoteOnEvt 0 (Note 60) 1, 52/5) \<in> set calls')"
proof -
  have h1: "list_all events_sorted (tracks loop_example)"
    by (simp add: loop_example_def events_sorted_def)
  have h2: "playTime loop_example \<le> loopTime loop_example"
    by (simp add: loop_example_def)
  have h3: "loopTime loop_example < 19/10 + real SYNTH_BUF_SIZE / 1280"
    by (simp add: loop_example_def SYNTH_BUF_SIZE_def)
  have h4: "(0::real) < 1280" by simp
  have h5: "0 \<le> loopTime loop_example" by (simp add: loop_example_def)
  note t = genAudio_block_loop_wraps[OF h1 h2 h3 h4 h5]
  have a: "genAudio_block log_event gen_silent 1280 (loop_example, 19/10, 10, [])
     = Inr (loop_example\<lparr>prevTime := 0, playTime := 0\<rparr>, 0, 51/5,
            [(3, NoteOffEvt (39/20) (Note 60), 51/5), (3, NoteOnEvt 2 (Note 62) 1, 51/5)])"
    unfolding t[of _ _ 10 _ "[]", THEN conjunct2, THEN conjunct1]
    by (simp add: loop_example_def window_calls_def track_calls_def window_events_def
        in_dispatch_window_def SYNTH_BUF_SIZE_def)
  have "hd (tracks loop_example) \<in> set (tracks loop_example)
        \<and> target (hd (tracks loop_example)) = Some 3
        \<and> NoteOnEvt 0 (Note 60) 1 \<in> set (events (hd (tracks loop_example)))
        \<and> evt_time (NoteOnEvt 0 (Note 60) 1) = 0"
    by (simp add: loop_example_def)
  with t[THEN conjunct2, THEN conjunct2, THEN conjunct2, THEN conjunct2,
      of "hd (tracks loop_example)" 3 "NoteOnEvt 0 (Note 60) 1" 10
      "[(3, NoteOffEvt (39/20) (Note 60), 51/5), (3, NoteOnEvt 2 (Note 62) 1, 51/5)]"]
  have b: "\<exists>p' ct rt' calls'.
        genAudio_blocks log_event gen_silent 1280 2
          (loop_example\<lparr>prevTime := 0, playTime := 0\<rparr>, 0, 51/5,
           [(3, NoteOffEvt (39/20) (Note 60), 51/5), (3, NoteOnEvt 2 (Note 62) 1, 51/5)])
          = Inr (p', ct, rt', calls')
      \<and> (3, NoteOnEvt 0 (Note 60) 1, 52/5) \<in> set calls'"
    by (simp add: SYNTH_BUF_SIZE_def)
  from a b show ?thesis by blast
qed

end
